theory Spec2Isabelle
  imports Complex_Main "HOL-Library.Multiset"
begin

section \<open>Greedy separation of points by axis-parallel lines (main.c)\<close>

text \<open>
  Representation of the C data.
  \<^item> A pointer to \<open>mypoints[k]\<close> is the index \<open>k\<close>; the arrays \<open>x_points\<close> and
    \<open>y_points\<close> are lists of such indices.
  \<^item> An array together with its element counter is a list: \<open>num_points\<close> is the length
    of \<open>mypoints\<close>, \<open>num_all_lines\<close> the length of \<open>lines\<close>, \<open>num_lines\<close> the length of
    \<open>final_lines\<close>. The counter \<open>num_edges\<close> is a field of its own.
  \<^item> A slot of \<open>lines\<close> points into \<open>all_lines\<close>, which is never written after
    \<open>pre_separate\<close>; the slot is the line it points to, or \<open>None\<close> for \<open>NULL\<close>.
  \<^item> A slot of a \<open>connections\<close> array is \<open>True\<close> when it holds a pointer and
    \<open>False\<close> when it holds \<open>NULL\<close>; only the first \<open>num_points\<close> slots are ever written
    or read, and the list holds those.
  \<^item> \<open>unsigned int\<close> arithmetic is on naturals with the reduction modulo \<open>2 ^ 32\<close>
    written out.
  \<^item> A \<open>float\<close> is the number it holds. The conversion of an \<open>int\<close> and the sum of two
    converted \<open>int\<close>s round to the nearest number with a significand of \<open>24\<close> bits, ties
    to even, which is an integer again; the division by \<open>2\<close> of such a number is exact.
    Coordinates are C \<open>int\<close>s, far inside the range of \<open>float\<close>. Halving commutes with
    the rounding, so the stored midpoint is the same if the sum is held in a wider format.
\<close>

definition MAX_POINTS :: nat where
  "MAX_POINTS = 100"

datatype Axis = V | H

datatype File_Status = FILE_SUCCESS | FILE_NOT_EXISTS | FILE_NO_POINTS | FILE_ERROR_POINTS

record myline =
  axis :: Axis
  coord :: rat

record mypoint =
  pt_id :: nat
  pt_x :: int
  pt_y :: int
  connections :: "bool list"

record state =
  mypoints :: "mypoint list"
  x_points :: "nat list"
  y_points :: "nat list"
  lines :: "myline option list"
  final_lines :: "myline list"
  num_edges :: nat

text \<open>The two ways the program stops early: \<open>exit(0)\<close> in \<open>link_points\<close>, and a read or
  write outside the loaded part of an array.\<close>

datatype error = Exit_Incorrect_Points | Memory_Fault

text \<open>The spacing of the \<open>float\<close>s around a natural number: \<open>1\<close> below \<open>2 ^ 24\<close>, and
  twice as much each time the number doubles.\<close>

function ulp24 :: "nat \<Rightarrow> nat" where
  "ulp24 n = (if n < 2 ^ 24 then 1 else 2 * ulp24 (n div 2))"
  by pat_completeness auto
termination
  by (relation "measure id") auto

declare ulp24.simps [simp del]

text \<open>The nearest \<open>float\<close> of a natural number, ties to the even significand.\<close>

definition round24 :: "nat \<Rightarrow> nat" where
  "round24 n =
     (let u = ulp24 n; q = n div u; r = n mod u
      in if 2 * r < u \<or> (2 * r = u \<and> even q) then q * u else (q + 1) * u)"

text \<open>\<open>(float)v\<close> for an \<open>int\<close>, and the sum of two \<open>float\<close>s that hold integers.\<close>

definition to_float :: "int \<Rightarrow> int" where
  "to_float v = (if v < 0 then - int (round24 (nat (- v))) else int (round24 (nat v)))"

definition float_add :: "int \<Rightarrow> int \<Rightarrow> int" where
  "float_add x y = to_float (x + y)"

definition num_points :: "state \<Rightarrow> nat" where
  "num_points st = length (mypoints st)"

subsection \<open>link_points and unlink_points\<close>

text \<open>The inner loop of \<open>link_points\<close> for point \<open>i\<close>: one slot per \<open>j\<close>, and one
  increment of \<open>num_edges\<close> for every slot that is linked.\<close>

definition link_row :: "nat \<Rightarrow> nat \<Rightarrow> nat \<Rightarrow> bool list \<times> nat" where
  "link_row n i ne =
     fold (\<lambda>j (row, e). if i = j then (row @ [False], e) else (row @ [True], (e + 1) mod 2 ^ 32))
       [0..<n] ([], ne)"

definition link_point :: "nat \<Rightarrow> state \<Rightarrow> state" where
  "link_point i st =
     (let (row, e) = link_row (num_points st) i (num_edges st)
      in st\<lparr>mypoints := (mypoints st)[i := (mypoints st ! i)\<lparr>pt_id := i, connections := row\<rparr>],
            num_edges := e\<rparr>)"

definition link_points :: "state \<Rightarrow> error + state" where
  "link_points st =
     (let st' = fold link_point [0..<num_points st] st;
          n = num_points st'
      in if num_edges st' \<noteq> (n * ((n + 2 ^ 32 - 1) mod 2 ^ 32)) mod 2 ^ 32
         then Inl Exit_Incorrect_Points
         else Inr st')"

definition unlink_points :: "nat \<Rightarrow> nat \<Rightarrow> state \<Rightarrow> state" where
  "unlink_points pt1 pt2 st =
     (let mp = mypoints st in
      if connections (mp ! pt1) ! pt_id (mp ! pt2) then
        let mp1 = mp[pt1 := (mp ! pt1)\<lparr>connections :=
                      (connections (mp ! pt1))[pt_id (mp ! pt2) := False]\<rparr>];
            mp2 = mp1[pt2 := (mp1 ! pt2)\<lparr>connections :=
                      (connections (mp1 ! pt2))[pt_id (mp1 ! pt1) := False]\<rparr>]
        in st\<lparr>mypoints := mp2, num_edges := (num_edges st + 2 ^ 32 - 2) mod 2 ^ 32\<rparr>
      else st)"

definition restore :: "state \<Rightarrow> state" where
  "restore st = st\<lparr>mypoints := [], lines := [], final_lines := [], num_edges := 0\<rparr>"

subsection \<open>closest_point\<close>

definition pt_array :: "state \<Rightarrow> Axis \<Rightarrow> nat list" where
  "pt_array st a = (case a of V \<Rightarrow> x_points st | H \<Rightarrow> y_points st)"

definition axis_coord :: "state \<Rightarrow> Axis \<Rightarrow> nat \<Rightarrow> int" where
  "axis_coord st a i =
     (case a of
        V \<Rightarrow> to_float (pt_x (mypoints st ! (x_points st ! i)))
      | H \<Rightarrow> to_float (pt_y (mypoints st ! (y_points st ! i))))"

function closest_scan :: "state \<Rightarrow> myline \<Rightarrow> nat \<Rightarrow> int" where
  "closest_scan st lin i =
     (if i < num_points st
      then (if of_int (axis_coord st (axis lin) i) > coord lin then int i - 1
            else closest_scan st lin (i + 1))
      else - 1)"
  by pat_completeness auto
termination
  by (relation "measure (\<lambda>(st, lin, i). num_points st - i)") auto

declare closest_scan.simps [simp del]

definition closest_point :: "state \<Rightarrow> myline \<Rightarrow> int" where
  "closest_point st lin = closest_scan st lin 0"

subsection \<open>pre_separate\<close>

text \<open>One of the two loops of \<open>pre_separate\<close>, for the axis \<open>a\<close>. The bound is the
  unsigned value of \<open>num_points - 1\<close>. Reading a slot of the point array that was not
  loaded, or writing past the \<open>2 * MAX_POINTS\<close> slots of \<open>all_lines\<close>, is a fault.\<close>

function pre_loop :: "Axis \<Rightarrow> nat \<Rightarrow> nat \<Rightarrow> state \<Rightarrow> error + state" where
  "pre_loop a i bound st =
     (if i < bound
      then (if i + 1 < length (pt_array st a) \<and> length (lines st) < 2 * MAX_POINTS
            then pre_loop a (i + 1) bound
                   (st\<lparr>lines := lines st @
                      [Some \<lparr>axis = a,
                         coord = of_int (float_add (axis_coord st a i) (axis_coord st a (i + 1))) / 2\<rparr>]\<rparr>)
            else Inl Memory_Fault)
      else Inr st)"
  by pat_completeness auto
termination
  by (relation "measure (\<lambda>(a, i, bound, st). bound - i)") auto

declare pre_loop.simps [simp del]

definition pre_separate :: "state \<Rightarrow> error + state" where
  "pre_separate st =
     (let bound = (num_points st + 2 ^ 32 - 1) mod 2 ^ 32
      in case pre_loop V 0 bound st of
           Inl e \<Rightarrow> Inl e
         | Inr st1 \<Rightarrow> pre_loop H 0 bound st1)"

subsection \<open>links_to_break and finalize_lines\<close>

definition links_to_break :: "state \<Rightarrow> myline option \<Rightarrow> int" where
  "links_to_break st lno =
     (case lno of
        None \<Rightarrow> 0
      | Some lin \<Rightarrow>
          let pt = pt_array st (axis lin);
              closest = closest_point st lin
          in fold (\<lambda>i num_links.
                fold (\<lambda>j num_links.
                    if connections (mypoints st ! pt_id (mypoints st ! (pt ! i)))
                         ! pt_id (mypoints st ! (pt ! j))
                    then num_links + 1 else num_links)
                  [nat (closest + 1)..<num_points st] num_links)
               [0..<nat (closest + 1)] 0)"

definition finalize_lines :: "myline option \<Rightarrow> state \<Rightarrow> state" where
  "finalize_lines lno st =
     (case lno of
        None \<Rightarrow> st
      | Some lin \<Rightarrow>
          let closest = closest_point st lin;
              pt = pt_array st (axis lin);
              st1 = fold (\<lambda>i s.
                      fold (\<lambda>j s. unlink_points (pt ! i) (pt ! j) s)
                        [nat (closest + 1)..<num_points st] s)
                    [0..<nat (closest + 1)] st
          in st1\<lparr>final_lines := final_lines st1 @ [lin]\<rparr>)"

subsection \<open>The main loop\<close>

text \<open>\<open>lines[j]\<close>; a slot that \<open>pre_separate\<close> did not fill holds \<open>NULL\<close>.\<close>

definition line_at :: "state \<Rightarrow> nat \<Rightarrow> myline option" where
  "line_at st j = (if j < length (lines st) then lines st ! j else None)"

text \<open>The scan of one iteration: the pair \<open>(line_index, num_link)\<close> after the \<open>for\<close> loop.\<close>

definition select_line :: "state \<Rightarrow> nat \<times> int" where
  "select_line st =
     fold (\<lambda>j (line_index, num_link).
         let temp = links_to_break st (line_at st j)
         in if temp > num_link then (j, temp) else (line_index, num_link))
       [1..<length (lines st)] (0, links_to_break st (line_at st 0))"

definition iteration :: "state \<Rightarrow> state" where
  "iteration st =
     (let line_index = fst (select_line st);
          st' = finalize_lines (line_at st line_index) st
      in st'\<lparr>lines := (lines st')[line_index := None]\<rparr>)"

partial_function (option) main_loop :: "state \<Rightarrow> state option" where
  "main_loop st = (if num_edges st > 0 then main_loop (iteration st) else Some st)"

declare main_loop.simps [code]

subsection \<open>One instance, and the loop over the instance files\<close>

text \<open>The globals after a successful \<open>read_file\<close> that loaded the points \<open>ps\<close>, in a
  process whose other globals are \<open>st\<close>.\<close>

definition load_points :: "(int \<times> int) list \<Rightarrow> state \<Rightarrow> state" where
  "load_points ps st =
     st\<lparr>mypoints := map (\<lambda>(a, b). \<lparr>pt_id = 0, pt_x = a, pt_y = b, connections = []\<rparr>) ps,
        x_points := [0..<length ps],
        y_points := [0..<length ps]\<rparr>"

definition fresh :: state where
  "fresh = \<lparr>mypoints = [], x_points = [], y_points = [], lines = [], final_lines = [],
            num_edges = 0\<rparr>"

text \<open>The content of an instance file: absent, empty, or a declared count followed by
  coordinate pairs.\<close>

datatype input_file = No_File | Empty_File | Points_File nat "(int \<times> int) list"

definition read_file :: "input_file \<Rightarrow> state \<Rightarrow> File_Status \<times> state" where
  "read_file f st =
     (case f of
        No_File \<Rightarrow> (FILE_NOT_EXISTS, st)
      | Empty_File \<Rightarrow> (FILE_NO_POINTS, st)
      | Points_File d ps \<Rightarrow>
          let st' = load_points (take MAX_POINTS ps) st
          in if length (take MAX_POINTS ps) \<noteq> d then (FILE_ERROR_POINTS, st')
             else (FILE_SUCCESS, st'))"

text \<open>The body of the \<open>for\<close> loop of \<open>main\<close> after a successful read, up to the
  \<open>while\<close> loop. \<open>ys\<close> is the content of \<open>y_points\<close> that \<open>qsort\<close> leaves.\<close>

definition setup_instance :: "nat list \<Rightarrow> state \<Rightarrow> error + state" where
  "setup_instance ys st =
     (case link_points (st\<lparr>y_points := ys\<rparr>) of
        Inl e \<Rightarrow> Inl e
      | Inr st1 \<Rightarrow> pre_separate st1)"

text \<open>The same with the \<open>while\<close> loop. \<open>None\<close>: the loop does not return.\<close>

definition separate :: "nat list \<Rightarrow> state \<Rightarrow> (error + state) option" where
  "separate ys st =
     (case setup_instance ys st of
        Inl e \<Rightarrow> Some (Inl e)
      | Inr st2 \<Rightarrow> map_option Inr (main_loop st2))"

text \<open>What a run of \<open>main\<close> leaves: the solutions written, in order, and whether the
  process ended by reaching the end of \<open>main\<close> or by an error.\<close>

datatype outcome = Program_Ends "myline list list" | Stopped error "myline list list"

fun main_files ::
  "(mypoint list \<Rightarrow> nat list \<Rightarrow> nat list) \<Rightarrow> input_file list \<Rightarrow> state \<Rightarrow> myline list list \<Rightarrow>
     outcome option" where
  "main_files qsort_y [] st out = Some (Program_Ends out)"
| "main_files qsort_y (f # fs) st out =
     (case read_file f st of
        (FILE_SUCCESS, st1) \<Rightarrow>
          (case separate (qsort_y (mypoints st1) (y_points st1)) st1 of
             None \<Rightarrow> None
           | Some (Inl e) \<Rightarrow> Some (Stopped e out)
           | Some (Inr st2) \<Rightarrow> main_files qsort_y fs (restore st2) (out @ [final_lines st2]))
      | (_, st1) \<Rightarrow> main_files qsort_y fs st1 out)"

subsection \<open>Properties of a state\<close>

text \<open>The connection slot of point \<open>i\<close> for point \<open>j\<close> holds a pointer.\<close>

definition linked :: "state \<Rightarrow> nat \<Rightarrow> nat \<Rightarrow> bool" where
  "linked st i j = connections (mypoints st ! i) ! j"

text \<open>What \<open>read_file\<close> and \<open>link_points\<close> leave: at most \<open>MAX_POINTS\<close> points, every
  point carrying its own index as \<open>id\<close> and a connection array with a slot for every
  point, and an \<open>unsigned int\<close> in \<open>num_edges\<close>.\<close>

definition ids_ok :: "state \<Rightarrow> bool" where
  "ids_ok st \<longleftrightarrow>
     num_points st \<le> MAX_POINTS \<and> num_edges st < 2 ^ 32 \<and>
     (\<forall>i \<in> set [0..<num_points st].
        pt_id (mypoints st ! i) = i \<and> length (connections (mypoints st ! i)) = num_points st)"

text \<open>The active directed connection entries, and their number.\<close>

definition active_entries :: "state \<Rightarrow> (nat \<times> nat) list" where
  "active_entries st =
     filter (\<lambda>(i, j). linked st i j) (List.product [0..<num_points st] [0..<num_points st])"

definition active_count :: "state \<Rightarrow> nat" where
  "active_count st = length (active_entries st)"

text \<open>The connectivity graph is symmetric, has no loop, and \<open>num_edges\<close> counts its
  entries.\<close>

definition graph_inv :: "state \<Rightarrow> bool" where
  "graph_inv st \<longleftrightarrow>
     ids_ok st \<and>
     (\<forall>i \<in> set [0..<num_points st]. \<forall>j \<in> set [0..<num_points st].
        (linked st i j \<longleftrightarrow> linked st j i) \<and> \<not> linked st i i) \<and>
     num_edges st = active_count st"


text \<open>The points that \<open>links_to_break\<close> and \<open>finalize_lines\<close> put on the low side and
  on the high side of a line: the outer and the inner loop range, read through the point
  array of the line's axis.\<close>

definition low_side :: "state \<Rightarrow> myline \<Rightarrow> nat list" where
  "low_side st lin =
     map ((!) (pt_array st (axis lin))) [0..<nat (closest_point st lin + 1)]"

definition high_side :: "state \<Rightarrow> myline \<Rightarrow> nat list" where
  "high_side st lin =
     map ((!) (pt_array st (axis lin))) [nat (closest_point st lin + 1)..<num_points st]"

text \<open>Two states with the same points in the same two orders.\<close>

definition same_points :: "state \<Rightarrow> state \<Rightarrow> bool" where
  "same_points st st' \<longleftrightarrow>
     x_points st' = x_points st \<and> y_points st' = y_points st \<and>
     num_points st' = num_points st \<and>
     (\<forall>i. pt_x (mypoints st' ! i) = pt_x (mypoints st ! i) \<and>
          pt_y (mypoints st' ! i) = pt_y (mypoints st ! i))"

text \<open>\<open>st'\<close> is \<open>st\<close> with the links between the pairs of \<open>C\<close> removed, in both
  directions, and nothing else changed but \<open>num_edges\<close>.\<close>

definition removes :: "state \<Rightarrow> state \<Rightarrow> (nat \<times> nat) set \<Rightarrow> bool" where
  "removes st st' C \<longleftrightarrow>
     graph_inv st' \<and> same_points st st' \<and> lines st' = lines st \<and>
     final_lines st' = final_lines st \<and>
     (\<forall>a < num_points st. \<forall>b < num_points st.
        linked st' a b \<longleftrightarrow> linked st a b \<and> (a, b) \<notin> C \<and> (b, a) \<notin> C)"


text \<open>The line that \<open>pre_separate\<close> computes between the points at positions \<open>k\<close> and
  \<open>k + 1\<close> of the order of axis \<open>a\<close>.\<close>

definition mid_line :: "state \<Rightarrow> Axis \<Rightarrow> nat \<Rightarrow> myline" where
  "mid_line st a k =
     \<lparr>axis = a, coord = of_int (float_add (axis_coord st a k) (axis_coord st a (k + 1))) / 2\<rparr>"

text \<open>Every coordinate is in the range where the \<open>float\<close> arithmetic of \<open>pre_separate\<close>
  and \<open>closest_point\<close> is exact.\<close>

definition exact_state :: "state \<Rightarrow> bool" where
  "exact_state st \<longleftrightarrow>
     (\<forall>i \<in> set [0..<num_points st].
        \<bar>pt_x (mypoints st ! i)\<bar> \<le> 2 ^ 23 \<and> \<bar>pt_y (mypoints st ! i)\<bar> \<le> 2 ^ 23)"

text \<open>The point array of axis \<open>a\<close> holds every point once, in ascending order of the
  coordinate on that axis.\<close>

definition order_ok :: "state \<Rightarrow> Axis \<Rightarrow> bool" where
  "order_ok st a \<longleftrightarrow>
     length (pt_array st a) = num_points st \<and>
     (\<forall>p \<in> set (pt_array st a). p < num_points st) \<and>
     distinct (pt_array st a) \<and>
     sorted (map (axis_coord st a) [0..<num_points st])"

text \<open>No active link joins the low side and the high side of a line.\<close>

definition cut_clear :: "state \<Rightarrow> myline \<Rightarrow> bool" where
  "cut_clear st lin \<longleftrightarrow>
     (\<forall>p \<in> set (low_side st lin). \<forall>q \<in> set (high_side st lin). \<not> linked st p q)"

text \<open>The line that \<open>pre_separate\<close> stores in slot \<open>j\<close> of \<open>lines\<close>.\<close>

definition slot_line :: "state \<Rightarrow> nat \<Rightarrow> myline" where
  "slot_line st j =
     (if j < num_points st - 1 then mid_line st V j
      else mid_line st H (j - (num_points st - 1)))"

text \<open>The number of slots of \<open>lines\<close> that still hold a line.\<close>

definition live_count :: "state \<Rightarrow> nat" where
  "live_count st = length (filter (\<lambda>l. l \<noteq> None) (lines st))"

text \<open>What holds whenever the \<open>while\<close> loop tests its condition, for an instance of
  distinct points in the exact range given in ascending order of \<open>x\<close>: the graph is
  symmetric and counted,
  both orders are sorted, every slot of \<open>lines\<close> holds the line \<open>pre_separate\<close> put there
  or \<open>NULL\<close>, and the line of a \<open>NULL\<close> slot has no active link left to cut.\<close>

definition loop_inv :: "state \<Rightarrow> bool" where
  "loop_inv st \<longleftrightarrow>
     graph_inv st \<and> exact_state st \<and> order_ok st V \<and> order_ok st H \<and>
     distinct (map (\<lambda>p. (pt_x p, pt_y p)) (mypoints st)) \<and>
     length (lines st) = 2 * (num_points st - 1) \<and>
     (\<forall>j \<in> set [0..<2 * (num_points st - 1)].
        case lines st ! j of
          Some l \<Rightarrow> l = slot_line st j
        | None \<Rightarrow> cut_clear st (slot_line st j))"

text \<open>The point array of axis \<open>a\<close> has a pointer to a point of the instance in each of
  its \<open>num_points\<close> slots.\<close>

definition ptrs_ok :: "state \<Rightarrow> Axis \<Rightarrow> bool" where
  "ptrs_ok st a \<longleftrightarrow>
     length (pt_array st a) = num_points st \<and>
     (\<forall>p \<in> set (pt_array st a). p < num_points st)"

text \<open>Links remain and no slot of \<open>lines\<close> has a positive score.\<close>

definition stuck :: "state \<Rightarrow> bool" where
  "stuck st \<longleftrightarrow>
     graph_inv st \<and> ptrs_ok st V \<and> ptrs_ok st H \<and> 0 < num_edges st \<and>
     (\<forall>j \<in> set [0..<length (lines st)]. links_to_break st (line_at st j) \<le> 0)"

text \<open>One possible result of \<open>qsort\<close> with \<open>y_compare\<close>, the stable one, for
  \<open>y\<close>-coordinates whose differences are in the range of \<open>int\<close>.\<close>

definition qsort_stable :: "mypoint list \<Rightarrow> nat list \<Rightarrow> nat list" where
  "qsort_stable mp ys = sort_key (\<lambda>p. pt_y (mp ! p)) ys"

text \<open>The same range for the points of an instance file. In it the subtraction of
  \<open>y_compare\<close> does not overflow either.\<close>

definition exact_coords :: "(int \<times> int) list \<Rightarrow> bool" where
  "exact_coords ps \<longleftrightarrow> (\<forall>p \<in> set ps. \<bar>fst p\<bar> \<le> 2 ^ 23 \<and> \<bar>snd p\<bar> \<le> 2 ^ 23)"

subsection \<open>Concrete states\<close>

text \<open>Two points at \<open>(0, 0)\<close> and \<open>(2, 2)\<close>: as loaded, after \<open>link_points\<close>, after
  \<open>pre_separate\<close>, and after the \<open>while\<close> loop.\<close>

definition two_points :: "(int \<times> int) list" where
  "two_points = [(0, 0), (2, 2)]"

definition two_loaded :: state where
  "two_loaded = load_points two_points fresh"

definition two_linked :: state where
  "two_linked =
     \<lparr>mypoints = [\<lparr>pt_id = 0, pt_x = 0, pt_y = 0, connections = [False, True]\<rparr>,
                  \<lparr>pt_id = 1, pt_x = 2, pt_y = 2, connections = [True, False]\<rparr>],
      x_points = [0, 1], y_points = [0, 1], lines = [], final_lines = [], num_edges = 2\<rparr>"

definition two_ready :: state where
  "two_ready = two_linked\<lparr>lines := [Some \<lparr>axis = V, coord = 1\<rparr>, Some \<lparr>axis = H, coord = 1\<rparr>]\<rparr>"

definition two_done :: state where
  "two_done =
     \<lparr>mypoints = [\<lparr>pt_id = 0, pt_x = 0, pt_y = 0, connections = [False, False]\<rparr>,
                  \<lparr>pt_id = 1, pt_x = 2, pt_y = 2, connections = [False, False]\<rparr>],
      x_points = [0, 1], y_points = [0, 1],
      lines = [None, Some \<lparr>axis = H, coord = 1\<rparr>],
      final_lines = [\<lparr>axis = V, coord = 1\<rparr>], num_edges = 0\<rparr>"

text \<open>Two points at \<open>(0, 0)\<close> and \<open>(2, 0)\<close>, and the same point \<open>(0, 0)\<close> twice, after
  \<open>pre_separate\<close>.\<close>

definition flat_points :: "(int \<times> int) list" where
  "flat_points = [(0, 0), (2, 0)]"

definition flat_ready :: state where
  "flat_ready =
     \<lparr>mypoints = [\<lparr>pt_id = 0, pt_x = 0, pt_y = 0, connections = [False, True]\<rparr>,
                  \<lparr>pt_id = 1, pt_x = 2, pt_y = 0, connections = [True, False]\<rparr>],
      x_points = [0, 1], y_points = [0, 1],
      lines = [Some \<lparr>axis = V, coord = 1\<rparr>, Some \<lparr>axis = H, coord = 0\<rparr>],
      final_lines = [], num_edges = 2\<rparr>"

text \<open>Two points at \<open>(16777216, 0)\<close> and \<open>(16777217, 0)\<close>, after \<open>pre_separate\<close>.\<close>

definition big_points :: "(int \<times> int) list" where
  "big_points = [(16777216, 0), (16777217, 0)]"

definition big_ready :: state where
  "big_ready =
     \<lparr>mypoints = [\<lparr>pt_id = 0, pt_x = 16777216, pt_y = 0, connections = [False, True]\<rparr>,
                  \<lparr>pt_id = 1, pt_x = 16777217, pt_y = 0, connections = [True, False]\<rparr>],
      x_points = [0, 1], y_points = [0, 1],
      lines = [Some \<lparr>axis = V, coord = 16777216\<rparr>, Some \<lparr>axis = H, coord = 0\<rparr>],
      final_lines = [], num_edges = 2\<rparr>"

definition twin_points :: "(int \<times> int) list" where
  "twin_points = [(0, 0), (0, 0)]"

definition twin_ready :: state where
  "twin_ready =
     \<lparr>mypoints = [\<lparr>pt_id = 0, pt_x = 0, pt_y = 0, connections = [False, True]\<rparr>,
                  \<lparr>pt_id = 1, pt_x = 0, pt_y = 0, connections = [True, False]\<rparr>],
      x_points = [0, 1], y_points = [0, 1],
      lines = [Some \<lparr>axis = V, coord = 0\<rparr>, Some \<lparr>axis = H, coord = 0\<rparr>],
      final_lines = [], num_edges = 2\<rparr>"


section \<open>Auxiliary facts\<close>

subsection \<open>unlink_points\<close>

lemma nth_list_update_any:
  "(xs[p := v]) ! i = (if i = p \<and> p < length xs then v else xs ! i)"
  by (cases "p < length xs") (auto simp add: nth_list_update list_update_beyond)

lemma unlink_points_noop:
  "\<not> linked st p (pt_id (mypoints st ! q)) \<Longrightarrow> unlink_points p q st = st"
  by (simp add: unlink_points_def linked_def)

lemma unlink_points_frame [simp]:
  "x_points (unlink_points p q st) = x_points st"
  "y_points (unlink_points p q st) = y_points st"
  "lines (unlink_points p q st) = lines st"
  "final_lines (unlink_points p q st) = final_lines st"
  "num_points (unlink_points p q st) = num_points st"
  by (simp_all add: unlink_points_def Let_def num_points_def)

lemma unlink_points_point:
  "pt_id (mypoints (unlink_points p q st) ! i) = pt_id (mypoints st ! i)"
  "pt_x (mypoints (unlink_points p q st) ! i) = pt_x (mypoints st ! i)"
  "pt_y (mypoints (unlink_points p q st) ! i) = pt_y (mypoints st ! i)"
  "length (connections (mypoints (unlink_points p q st) ! i)) = length (connections (mypoints st ! i))"
  by (simp_all add: unlink_points_def Let_def nth_list_update_any)

lemma unlink_points_linked:
  assumes "ids_ok st" "p < num_points st" "q < num_points st"
    "a < num_points st" "b < num_points st"
  shows "linked (unlink_points p q st) a b \<longleftrightarrow>
     linked st a b \<and> (linked st p q \<longrightarrow> \<not> (a = p \<and> b = q) \<and> \<not> (a = q \<and> b = p))"
  using assms
  by (auto simp add: unlink_points_def Let_def num_points_def linked_def ids_ok_def nth_list_update_any)

lemma unlink_points_num_edges:
  "num_edges (unlink_points p q st) =
     (if linked st p (pt_id (mypoints st ! q)) then (num_edges st + 2 ^ 32 - 2) mod 2 ^ 32 else num_edges st)"
  by (simp add: unlink_points_def Let_def linked_def)

lemma active_count_card:
  "active_count st = card {(i, j). i < num_points st \<and> j < num_points st \<and> linked st i j}"
proof -
  have "distinct (active_entries st)"
    by (simp add: active_entries_def distinct_product)
  then have "active_count st = card (set (active_entries st))"
    by (simp add: active_count_def distinct_card)
  moreover have "set (active_entries st) =
      {(i, j). i < num_points st \<and> j < num_points st \<and> linked st i j}"
    by (auto simp add: active_entries_def)
  ultimately show ?thesis by simp
qed

lemma finite_active:
  "finite {(i, j). i < num_points st \<and> j < num_points st \<and> linked st i j}"
proof -
  have "{(i, j). i < num_points st \<and> j < num_points st \<and> linked st i j}
      \<subseteq> {..<num_points st} \<times> {..<num_points st}"
    by auto
  then show ?thesis by (rule finite_subset) simp
qed

lemma active_count_le: "active_count st \<le> num_points st * num_points st"
proof -
  have "{(i, j). i < num_points st \<and> j < num_points st \<and> linked st i j}
      \<subseteq> {..<num_points st} \<times> {..<num_points st}"
    by auto
  then have "card {(i, j). i < num_points st \<and> j < num_points st \<and> linked st i j}
      \<le> card ({..<num_points st} \<times> {..<num_points st})"
    by (intro card_mono) simp_all
  then show ?thesis by (simp add: active_count_card)
qed

lemma graph_inv_linked:
  assumes "graph_inv st" "i < num_points st" "j < num_points st"
  shows "linked st i j \<longleftrightarrow> linked st j i" and "\<not> linked st i i"
  using assms by (auto simp add: graph_inv_def)

lemma graph_inv_ids:
  assumes "graph_inv st" "i < num_points st"
  shows "pt_id (mypoints st ! i) = i" and "length (connections (mypoints st ! i)) = num_points st"
  using assms by (auto simp add: graph_inv_def ids_ok_def)

lemma unlink_active_count:
  assumes g: "graph_inv st" and p: "p < num_points st" and q: "q < num_points st"
    and l: "linked st p q"
  shows "active_count (unlink_points p q st) + 2 = active_count st"
proof -
  let ?A = "{(i, j). i < num_points st \<and> j < num_points st \<and> linked st i j}"
  let ?B = "{(i, j). i < num_points st \<and> j < num_points st \<and> linked (unlink_points p q st) i j}"
  have ids: "ids_ok st" using g by (simp add: graph_inv_def)
  have pq: "p \<noteq> q" using g p l graph_inv_linked(2) by blast
  have qp: "linked st q p" using g p q l graph_inv_linked(1) by blast
  have B: "?B = ?A - {(p, q), (q, p)}"
    using l by (auto simp add: unlink_points_linked [OF ids p q])
  have sub: "{(p, q), (q, p)} \<subseteq> ?A" using p q l qp by auto
  have "card ?B = card ?A - card {(p, q), (q, p)}"
    unfolding B using sub by (intro card_Diff_subset) auto
  moreover have "card {(p, q), (q, p)} = 2" using pq by auto
  moreover have "card {(p, q), (q, p)} \<le> card ?A"
    using sub finite_active by (intro card_mono) auto
  ultimately show ?thesis
    by (simp add: active_count_card)
qed

lemma unlink_points_graph_inv:
  assumes g: "graph_inv st" and p: "p < num_points st" and q: "q < num_points st"
  shows "graph_inv (unlink_points p q st)"
proof (cases "linked st p q")
  case False
  then have "unlink_points p q st = st"
    using unlink_points_noop graph_inv_ids(1) [OF g q] by simp
  then show ?thesis using g by simp
next
  case True
  have ids: "ids_ok st" using g by (simp add: graph_inv_def)
  have cnt: "active_count (unlink_points p q st) + 2 = active_count st"
    by (rule unlink_active_count [OF g p q True])
  have ne: "num_edges st = active_count st" "num_edges st < 2 ^ 32"
    using g by (simp_all add: graph_inv_def ids_ok_def)
  have "num_edges (unlink_points p q st) = (num_edges st + 2 ^ 32 - 2) mod 2 ^ 32"
    using True graph_inv_ids(1) [OF g q] by (simp add: unlink_points_num_edges)
  also have "\<dots> = num_edges st - 2"
    using ne cnt by (simp add: mod_if)
  finally have ne': "num_edges (unlink_points p q st) = active_count (unlink_points p q st)"
    using ne cnt by simp
  have "ids_ok (unlink_points p q st)"
    using ids ne ne' cnt by (simp add: ids_ok_def unlink_points_point)
  moreover have "\<forall>i \<in> set [0..<num_points st]. \<forall>j \<in> set [0..<num_points st].
      (linked (unlink_points p q st) i j \<longleftrightarrow> linked (unlink_points p q st) j i) \<and>
      \<not> linked (unlink_points p q st) i i"
    using graph_inv_linked [OF g]
    by (auto simp add: unlink_points_linked [OF ids p q])
  ultimately show ?thesis using ne' by (simp add: graph_inv_def)
qed

subsection \<open>closest_point\<close>

lemma same_points_refl: "same_points st st"
  by (simp add: same_points_def)

lemma same_points_trans: "same_points st st' \<Longrightarrow> same_points st' st'' \<Longrightarrow> same_points st st''"
  by (simp add: same_points_def)

lemma same_points_axis:
  assumes "same_points st st'"
  shows "axis_coord st' a i = axis_coord st a i" and "pt_array st' a = pt_array st a"
    and "num_points st' = num_points st"
  using assms by (simp_all add: same_points_def axis_coord_def pt_array_def split: Axis.splits)

lemma closest_scan_same:
  assumes "same_points st st'"
  shows "closest_scan st' lin i = closest_scan st lin i"
proof (induction "num_points st - i" arbitrary: i)
  case 0
  then show ?case
    using same_points_axis(3) [OF assms]
    by (simp add: closest_scan.simps [of st lin i] closest_scan.simps [of st' lin i])
next
  case (Suc k)
  then have "closest_scan st' lin (i + 1) = closest_scan st lin (i + 1)"
    by simp
  then show ?case
    using same_points_axis [OF assms]
    by (simp add: closest_scan.simps [of st lin i] closest_scan.simps [of st' lin i])
qed

lemma closest_point_same:
  "same_points st st' \<Longrightarrow> closest_point st' lin = closest_point st lin"
  by (simp add: closest_point_def closest_scan_same)

lemma sides_same:
  assumes "same_points st st'"
  shows "low_side st' lin = low_side st lin" and "high_side st' lin = high_side st lin"
  using same_points_axis [OF assms] closest_point_same [OF assms]
  by (simp_all add: low_side_def high_side_def)

text \<open>The scan returns \<open>- 1\<close> when no coordinate from \<open>i\<close> on exceeds the line's, and
  the index before the first coordinate that does otherwise.\<close>

lemma closest_scan_none:
  assumes "\<forall>k. i \<le> k \<and> k < num_points st \<longrightarrow> of_int (axis_coord st (axis lin) k) \<le> coord lin"
  shows "closest_scan st lin i = - 1"
  using assms
proof (induction "num_points st - i" arbitrary: i)
  case 0
  then show ?case by (simp add: closest_scan.simps [of st lin i])
next
  case (Suc k)
  then have "closest_scan st lin (i + 1) = - 1" by simp
  moreover have "of_int (axis_coord st (axis lin) i) \<le> coord lin"
    using Suc.hyps(2) Suc.prems by simp
  ultimately show ?case by (simp add: closest_scan.simps [of st lin i])
qed

lemma closest_scan_first:
  assumes "i \<le> k" "k < num_points st" "coord lin < of_int (axis_coord st (axis lin) k)"
    "\<forall>m. i \<le> m \<and> m < k \<longrightarrow> of_int (axis_coord st (axis lin) m) \<le> coord lin"
  shows "closest_scan st lin i = int k - 1"
  using assms
proof (induction "k - i" arbitrary: i)
  case 0
  then have "i = k" by simp
  then show ?case using 0 by (simp add: closest_scan.simps [of st lin k])
next
  case (Suc d)
  then have "closest_scan st lin (i + 1) = int k - 1" by simp
  moreover have "of_int (axis_coord st (axis lin) i) \<le> coord lin" "i < num_points st"
    using Suc.hyps(2) Suc.prems by simp_all
  ultimately show ?case by (simp add: closest_scan.simps [of st lin i])
qed

lemma closest_scan_range: "- 1 \<le> closest_scan st lin i \<and> closest_scan st lin i < int (num_points st)"
proof (induction st lin i rule: closest_scan.induct)
  case (1 st lin i)
  then show ?case by (simp add: closest_scan.simps [of st lin i])
qed

subsection \<open>removes\<close>

lemma removes_refl: "graph_inv st \<Longrightarrow> removes st st {}"
  by (simp add: removes_def same_points_refl)

lemma removes_trans:
  assumes "removes st st' C" "removes st' st'' D"
  shows "removes st st'' (C \<union> D)"
proof -
  have n: "num_points st' = num_points st"
    using assms(1) by (simp add: removes_def same_points_def)
  show ?thesis
    using assms same_points_trans [of st st' st'']
    by (auto simp add: removes_def n)
qed

lemma removes_unlink:
  assumes g: "graph_inv st" and p: "p < num_points st" and q: "q < num_points st"
  shows "removes st (unlink_points p q st) {(p, q)}"
proof -
  have ids: "ids_ok st" using g by (simp add: graph_inv_def)
  have "same_points st (unlink_points p q st)"
    by (simp add: same_points_def unlink_points_point)
  moreover have "\<forall>a < num_points st. \<forall>b < num_points st.
        linked (unlink_points p q st) a b \<longleftrightarrow>
        linked st a b \<and> (a, b) \<notin> {(p, q)} \<and> (b, a) \<notin> {(p, q)}"
    using graph_inv_linked(1) [OF g p q]
    by (auto simp add: unlink_points_linked [OF ids p q])
  ultimately show ?thesis
    using unlink_points_graph_inv [OF g p q] by (simp add: removes_def)
qed

lemma removes_inner:
  assumes "graph_inv st" "p < num_points st" "\<forall>q \<in> set qs. q < num_points st"
  shows "removes st (fold (\<lambda>q s. unlink_points p q s) qs st) ({p} \<times> set qs)"
  using assms
proof (induction qs arbitrary: st)
  case Nil
  then show ?case by (simp add: removes_refl)
next
  case (Cons q qs)
  have r1: "removes st (unlink_points p q st) {(p, q)}"
    using Cons.prems by (intro removes_unlink) simp_all
  then have g1: "graph_inv (unlink_points p q st)" by (simp add: removes_def)
  have "removes (unlink_points p q st) (fold (\<lambda>q s. unlink_points p q s) qs (unlink_points p q st))
          ({p} \<times> set qs)"
    using Cons.prems g1 by (intro Cons.IH) simp_all
  from removes_trans [OF r1 this]
  have "removes st (fold (\<lambda>q s. unlink_points p q s) (q # qs) st) ({(p, q)} \<union> {p} \<times> set qs)"
    by simp
  moreover have "{(p, q)} \<union> {p} \<times> set qs = {p} \<times> set (q # qs)" by auto
  ultimately show ?case by simp
qed

lemma removes_outer:
  assumes "graph_inv st" "\<forall>p \<in> set ps. p < num_points st" "\<forall>q \<in> set qs. q < num_points st"
  shows "removes st (fold (\<lambda>p s. fold (\<lambda>q s. unlink_points p q s) qs s) ps st) (set ps \<times> set qs)"
  using assms
proof (induction ps arbitrary: st)
  case Nil
  then show ?case by (simp add: removes_refl)
next
  case (Cons p ps)
  let ?st1 = "fold (\<lambda>q s. unlink_points p q s) qs st"
  have r1: "removes st ?st1 ({p} \<times> set qs)"
    using Cons.prems by (intro removes_inner) simp_all
  then have g1: "graph_inv ?st1" and n1: "num_points ?st1 = num_points st"
    by (simp_all add: removes_def same_points_def)
  have "removes ?st1 (fold (\<lambda>p s. fold (\<lambda>q s. unlink_points p q s) qs s) ps ?st1) (set ps \<times> set qs)"
    using Cons.prems g1 n1 by (intro Cons.IH) simp_all
  from removes_trans [OF r1 this]
  have "removes st (fold (\<lambda>p s. fold (\<lambda>q s. unlink_points p q s) qs s) (p # ps) st)
          ({p} \<times> set qs \<union> set ps \<times> set qs)"
    by simp
  moreover have "{p} \<times> set qs \<union> set ps \<times> set qs = set (p # ps) \<times> set qs" by auto
  ultimately show ?case by simp
qed

lemma finalize_lines_sides:
  "finalize_lines (Some lin) st =
     (let st1 = fold (\<lambda>p s. fold (\<lambda>q s. unlink_points p q s) (high_side st lin) s)
                  (low_side st lin) st
      in st1\<lparr>final_lines := final_lines st1 @ [lin]\<rparr>)"
  by (simp add: finalize_lines_def low_side_def high_side_def fold_map comp_def Let_def)

lemma fold_count_inner:
  fixes c0 :: int
  shows "c0 \<le> fold (\<lambda>j c. if P j then c + 1 else c) js c0 \<and>
     (c0 < fold (\<lambda>j c. if P j then c + 1 else c) js c0 \<longleftrightarrow> (\<exists>j \<in> set js. P j))"
proof (induction js arbitrary: c0)
  case Nil
  show ?case by simp
next
  case (Cons j js)
  show ?case
  proof (cases "P j")
    case True
    have "c0 + 1 \<le> fold (\<lambda>j c. if P j then c + 1 else c) js (c0 + 1)"
      using Cons.IH [of "c0 + 1"] by blast
    then show ?thesis using True by simp
  next
    case False
    then show ?thesis using Cons.IH [of c0] by simp
  qed
qed

lemma fold_count_outer:
  fixes c0 :: int
  shows "c0 \<le> fold (\<lambda>i c. fold (\<lambda>j c. if P i j then c + 1 else c) js c) is c0 \<and>
     (c0 < fold (\<lambda>i c. fold (\<lambda>j c. if P i j then c + 1 else c) js c) is c0
        \<longleftrightarrow> (\<exists>i \<in> set is. \<exists>j \<in> set js. P i j))"
proof (induction "is" arbitrary: c0)
  case Nil
  show ?case by simp
next
  case (Cons i "is")
  let ?c1 = "fold (\<lambda>j c. if P i j then c + 1 else c) js c0"
  have inner: "c0 \<le> ?c1" "c0 < ?c1 \<longleftrightarrow> (\<exists>j \<in> set js. P i j)"
    using fold_count_inner [of c0 "P i" js] by blast+
  have rest: "?c1 \<le> fold (\<lambda>i c. fold (\<lambda>j c. if P i j then c + 1 else c) js c) is ?c1"
    "?c1 < fold (\<lambda>i c. fold (\<lambda>j c. if P i j then c + 1 else c) js c) is ?c1
       \<longleftrightarrow> (\<exists>i \<in> set is. \<exists>j \<in> set js. P i j)"
    using Cons.IH [of ?c1] by blast+
  show ?case
  proof (cases "c0 < ?c1")
    case True
    then show ?thesis using inner rest by auto
  next
    case False
    then have "?c1 = c0" using inner(1) by simp
    then show ?thesis using inner rest by auto
  qed
qed

lemma links_to_break_pos:
  assumes ids: "ids_ok st"
    and low: "\<forall>p \<in> set (low_side st lin). p < num_points st"
    and high: "\<forall>q \<in> set (high_side st lin). q < num_points st"
  shows "0 \<le> links_to_break st (Some lin)"
    and "0 < links_to_break st (Some lin) \<longleftrightarrow>
      (\<exists>p \<in> set (low_side st lin). \<exists>q \<in> set (high_side st lin). linked st p q)"
proof -
  let ?T = "\<lambda>p q. connections (mypoints st ! pt_id (mypoints st ! p)) ! pt_id (mypoints st ! q)"
  have eq: "links_to_break st (Some lin) =
      fold (\<lambda>p c. fold (\<lambda>q c. if ?T p q then c + 1 else c) (high_side st lin) c)
        (low_side st lin) 0"
    by (simp add: links_to_break_def low_side_def high_side_def fold_map comp_def Let_def)
  have T: "?T p q \<longleftrightarrow> linked st p q" if "p < num_points st" "q < num_points st" for p q
    using ids that by (simp add: ids_ok_def linked_def)
  have cnt: "0 \<le> links_to_break st (Some lin)"
    "0 < links_to_break st (Some lin) \<longleftrightarrow>
       (\<exists>p \<in> set (low_side st lin). \<exists>q \<in> set (high_side st lin). ?T p q)"
    unfolding eq using fold_count_outer [of 0 ?T "high_side st lin" "low_side st lin"] by blast+
  show "0 \<le> links_to_break st (Some lin)" by (rule cnt(1))
  show "0 < links_to_break st (Some lin) \<longleftrightarrow>
      (\<exists>p \<in> set (low_side st lin). \<exists>q \<in> set (high_side st lin). linked st p q)"
    unfolding cnt(2) using low high T by blast
qed

subsection \<open>link_points\<close>

lemma count_others: "length (filter (\<lambda>j. i \<noteq> j) [0..<n]) = (if i < n then n - 1 else n)"
  by (induction n) auto

lemma link_row_eq:
  assumes "ne < 2 ^ 32"
  shows "link_row n i ne =
     (map (\<lambda>j. i \<noteq> j) [0..<n], (ne + length (filter (\<lambda>j. i \<noteq> j) [0..<n])) mod 2 ^ 32)"
  unfolding link_row_def
proof (induction n)
  case 0
  show ?case using assms by simp
next
  case (Suc n)
  show ?case
    by (simp add: Suc mod_Suc_eq)
qed

lemma link_point_eq:
  assumes "num_edges st < 2 ^ 32"
  shows "link_point i st =
     st\<lparr>mypoints := (mypoints st)[i := (mypoints st ! i)
            \<lparr>pt_id := i, connections := map (\<lambda>j. i \<noteq> j) [0..<num_points st]\<rparr>],
        num_edges := (num_edges st + (if i < num_points st then num_points st - 1 else num_points st))
                       mod 2 ^ 32\<rparr>"
  by (simp add: link_point_def link_row_eq [OF assms] count_others)

lemma link_fold:
  assumes "num_edges st < 2 ^ 32" "k \<le> num_points st"
  shows "x_points (fold link_point [0..<k] st) = x_points st \<and>
         y_points (fold link_point [0..<k] st) = y_points st \<and>
         lines (fold link_point [0..<k] st) = lines st \<and>
         final_lines (fold link_point [0..<k] st) = final_lines st \<and>
         num_points (fold link_point [0..<k] st) = num_points st \<and>
         (\<forall>i. pt_x (mypoints (fold link_point [0..<k] st) ! i) = pt_x (mypoints st ! i) \<and>
              pt_y (mypoints (fold link_point [0..<k] st) ! i) = pt_y (mypoints st ! i)) \<and>
         (\<forall>i < k. pt_id (mypoints (fold link_point [0..<k] st) ! i) = i \<and>
              connections (mypoints (fold link_point [0..<k] st) ! i) =
                map (\<lambda>j. i \<noteq> j) [0..<num_points st]) \<and>
         num_edges (fold link_point [0..<k] st) = (num_edges st + k * (num_points st - 1)) mod 2 ^ 32"
  using assms(2)
proof (induction k)
  case 0
  show ?case using assms(1) by simp
next
  case (Suc k)
  let ?s = "fold link_point [0..<k] st"
  have IH: "x_points ?s = x_points st" "y_points ?s = y_points st" "lines ?s = lines st"
    "final_lines ?s = final_lines st" "num_points ?s = num_points st"
    "\<And>i. pt_x (mypoints ?s ! i) = pt_x (mypoints st ! i)"
    "\<And>i. pt_y (mypoints ?s ! i) = pt_y (mypoints st ! i)"
    "\<And>i. i < k \<Longrightarrow> pt_id (mypoints ?s ! i) = i"
    "\<And>i. i < k \<Longrightarrow> connections (mypoints ?s ! i) = map (\<lambda>j. i \<noteq> j) [0..<num_points st]"
    "num_edges ?s = (num_edges st + k * (num_points st - 1)) mod 2 ^ 32"
    using Suc by simp_all
  have lt: "num_edges ?s < 2 ^ 32" by (simp add: IH(10))
  have k: "k < num_points st" using Suc.prems by simp
  have len: "k < length (mypoints ?s)" using k IH(5) by (simp add: num_points_def)
  have step: "fold link_point [0..<Suc k] st = link_point k ?s" by simp
  have "(num_edges ?s + (num_points st - 1)) mod 2 ^ 32 =
      ((num_edges st + k * (num_points st - 1)) + (num_points st - 1)) mod 2 ^ 32"
    unfolding IH(10) by (rule mod_add_left_eq)
  moreover have "(num_edges st + k * (num_points st - 1)) + (num_points st - 1) =
      num_edges st + Suc k * (num_points st - 1)"
    by simp
  ultimately have ne: "(num_edges ?s + (num_points st - 1)) mod 2 ^ 32 =
      (num_edges st + Suc k * (num_points st - 1)) mod 2 ^ 32"
    by (simp only:)
  have e: "num_edges (link_point k ?s) = (num_edges st + Suc k * (num_points st - 1)) mod 2 ^ 32"
    unfolding link_point_eq [OF lt] using k IH(5) ne by simp
  have rest: "x_points (link_point k ?s) = x_points st \<and>
         y_points (link_point k ?s) = y_points st \<and>
         lines (link_point k ?s) = lines st \<and>
         final_lines (link_point k ?s) = final_lines st \<and>
         num_points (link_point k ?s) = num_points st \<and>
         (\<forall>i. pt_x (mypoints (link_point k ?s) ! i) = pt_x (mypoints st ! i) \<and>
              pt_y (mypoints (link_point k ?s) ! i) = pt_y (mypoints st ! i)) \<and>
         (\<forall>i < Suc k. pt_id (mypoints (link_point k ?s) ! i) = i \<and>
              connections (mypoints (link_point k ?s) ! i) =
                map (\<lambda>j. i \<noteq> j) [0..<num_points st])"
    unfolding link_point_eq [OF lt]
    using IH(1-9) k len
    by (auto simp add: num_points_def nth_list_update_any less_Suc_eq)
  show ?case
    unfolding step using rest e by blast
qed

lemma card_offdiag: "card {(i, j). i < n \<and> j < n \<and> i \<noteq> j} = n * (n - 1)"
proof -
  let ?A = "{..<n} \<times> {..<n}"
  let ?D = "(\<lambda>i. (i, i)) ` {..<n}"
  have eq: "{(i, j). i < n \<and> j < n \<and> i \<noteq> j} = ?A - ?D" by auto
  have "card ?D = n" by (simp add: card_image inj_on_def)
  moreover have "?D \<subseteq> ?A" by auto
  ultimately have "card (?A - ?D) = n * n - n"
    by (simp add: card_Diff_subset)
  then show ?thesis unfolding eq by (simp add: diff_mult_distrib2)
qed

lemma link_points_result:
  assumes n: "num_points st \<le> MAX_POINTS" and e: "num_edges st < 2 ^ 32"
  shows "link_points st =
     (if num_edges st = 0 then Inr (fold link_point [0..<num_points st] st)
      else Inl Exit_Incorrect_Points)"
proof -
  let ?n = "num_points st"
  let ?s = "fold link_point [0..<?n] st"
  have f: "num_points ?s = ?n" "num_edges ?s = (num_edges st + ?n * (?n - 1)) mod 2 ^ 32"
    using link_fold [OF e, of ?n] by simp_all
  have small: "?n * (?n - 1) \<le> 100 * 100"
    using n by (intro mult_mono) (simp_all add: MAX_POINTS_def)
  have rhs: "(?n * ((?n + 2 ^ 32 - 1) mod 2 ^ 32)) mod 2 ^ 32 = ?n * (?n - 1)"
  proof (cases "?n = 0")
    case True
    then show ?thesis by simp
  next
    case False
    then have "?n + 2 ^ 32 - 1 = (?n - 1) + 2 ^ 32" by simp
    then have "(?n + 2 ^ 32 - 1) mod 2 ^ 32 = (?n - 1) mod 2 ^ 32"
      by (simp only: mod_add_self2)
    also have "\<dots> = ?n - 1" using n by (simp add: MAX_POINTS_def)
    finally show ?thesis using small by simp
  qed
  have "(num_edges st + ?n * (?n - 1)) mod 2 ^ 32 = ?n * (?n - 1) \<longleftrightarrow> num_edges st = 0"
  proof (cases "num_edges st + ?n * (?n - 1) < 2 ^ 32")
    case True
    then show ?thesis by simp
  next
    case False
    then have "(num_edges st + ?n * (?n - 1)) mod 2 ^ 32 = num_edges st + ?n * (?n - 1) - 2 ^ 32"
      using e small by (simp add: mod_if)
    then show ?thesis using e False small by auto
  qed
  then have chk: "(num_edges ?s \<noteq> (num_points ?s * ((num_points ?s + 2 ^ 32 - 1) mod 2 ^ 32)) mod 2 ^ 32)
      \<longleftrightarrow> num_edges st \<noteq> 0"
    unfolding f rhs by simp
  show ?thesis
    unfolding link_points_def Let_def chk by simp
qed

lemma link_fold_graph:
  assumes n: "num_points st \<le> MAX_POINTS" and e: "num_edges st = 0"
  shows "graph_inv (fold link_point [0..<num_points st] st)"
    and "same_points st (fold link_point [0..<num_points st] st)"
    and "lines (fold link_point [0..<num_points st] st) = lines st"
    and "final_lines (fold link_point [0..<num_points st] st) = final_lines st"
    and "\<forall>i < num_points st. \<forall>j < num_points st.
           linked (fold link_point [0..<num_points st] st) i j \<longleftrightarrow> i \<noteq> j"
    and "num_edges (fold link_point [0..<num_points st] st) = num_points st * (num_points st - 1)"
proof -
  let ?n = "num_points st"
  let ?s = "fold link_point [0..<?n] st"
  have e': "num_edges st < 2 ^ 32" using e by simp
  note f = link_fold [OF e', of ?n, simplified]
  have small: "?n * (?n - 1) \<le> 100 * 100"
    using n by (intro mult_mono) (simp_all add: MAX_POINTS_def)
  show sp: "same_points st ?s" using f by (simp add: same_points_def)
  show "lines ?s = lines st" "final_lines ?s = final_lines st" using f by simp_all
  show l: "\<forall>i < ?n. \<forall>j < ?n. linked ?s i j \<longleftrightarrow> i \<noteq> j"
    using f by (simp add: linked_def)
  show ne: "num_edges ?s = ?n * (?n - 1)" using f e small by simp
  have np: "num_points ?s = ?n" using f by simp
  have "{(i, j). i < ?n \<and> j < ?n \<and> linked ?s i j} = {(i, j). i < ?n \<and> j < ?n \<and> i \<noteq> j}"
    using l by auto
  then have "active_count ?s = ?n * (?n - 1)"
    by (simp add: active_count_card np card_offdiag)
  moreover have "ids_ok ?s"
    using f n small ne by (simp add: ids_ok_def)
  ultimately show "graph_inv ?s"
    using l ne by (auto simp add: graph_inv_def np)
qed

subsection \<open>pre_separate and the scan of an iteration\<close>

lemma axis_coord_lines [simp]: "axis_coord (st\<lparr>lines := l\<rparr>) a k = axis_coord st a k"
  by (cases a) (simp_all add: axis_coord_def)

lemma pt_array_lines [simp]: "pt_array (st\<lparr>lines := l\<rparr>) a = pt_array st a"
  by (cases a) (simp_all add: pt_array_def)

lemma mid_line_lines [simp]: "mid_line (st\<lparr>lines := l\<rparr>) a k = mid_line st a k"
  by (simp add: mid_line_def)

lemma pre_loop_eq:
  assumes "i \<le> bound" "bound < length (pt_array st a)"
    "length (lines st) + (bound - i) \<le> 2 * MAX_POINTS"
  shows "pre_loop a i bound st =
     Inr (st\<lparr>lines := lines st @ map (\<lambda>k. Some (mid_line st a k)) [i..<bound]\<rparr>)"
  using assms
proof (induction "bound - i" arbitrary: i st)
  case 0
  then show ?case by (subst pre_loop.simps) simp
next
  case (Suc d)
  let ?st1 = "st\<lparr>lines := lines st @ [Some (mid_line st a i)]\<rparr>"
  have i: "i < bound" using Suc.hyps(2) by simp
  have same: "pt_array ?st1 a = pt_array st a" "\<And>k. mid_line ?st1 a k = mid_line st a k"
    by simp_all
  have "pre_loop a (i + 1) bound ?st1 =
      Inr (?st1\<lparr>lines := lines ?st1 @ map (\<lambda>k. Some (mid_line ?st1 a k)) [i + 1..<bound]\<rparr>)"
    using Suc.hyps(2) Suc.prems i by (intro Suc.hyps(1)) (simp_all add: same)
  then have "pre_loop a (i + 1) bound ?st1 =
      Inr (st\<lparr>lines := lines st @ map (\<lambda>k. Some (mid_line st a k)) [i..<bound]\<rparr>)"
    using i by (simp add: same upt_conv_Cons)
  moreover have "length (lines st) < 2 * MAX_POINTS" "i + 1 < length (pt_array st a)"
    using i Suc.prems by arith+
  then have "pre_loop a i bound st = pre_loop a (i + 1) bound ?st1"
    using i by (simp add: pre_loop.simps [of a i bound st] mid_line_def)
  ultimately show ?case by simp
qed

lemma pre_separate_eq:
  assumes n: "1 \<le> num_points st" "num_points st \<le> MAX_POINTS"
    and len: "length (x_points st) = num_points st" "length (y_points st) = num_points st"
    and empty: "lines st = []"
  shows "pre_separate st =
     Inr (st\<lparr>lines := map (\<lambda>k. Some (mid_line st V k)) [0..<num_points st - 1] @
                       map (\<lambda>k. Some (mid_line st H k)) [0..<num_points st - 1]\<rparr>)"
proof -
  let ?n = "num_points st"
  let ?st1 = "st\<lparr>lines := map (\<lambda>k. Some (mid_line st V k)) [0..<?n - 1]\<rparr>"
  have "?n + 2 ^ 32 - 1 = (?n - 1) + 2 ^ 32" using n by simp
  then have "(?n + 2 ^ 32 - 1) mod 2 ^ 32 = (?n - 1) mod 2 ^ 32"
    by (simp only: mod_add_self2)
  also have "\<dots> = ?n - 1" using n by (simp add: MAX_POINTS_def)
  finally have bound: "(?n + 2 ^ 32 - 1) mod 2 ^ 32 = ?n - 1" .
  have v: "pre_loop V 0 (?n - 1) st = Inr ?st1"
    using n len empty pre_loop_eq [of 0 "?n - 1" st V]
    by (simp add: pt_array_def MAX_POINTS_def)
  have h: "pre_loop H 0 (?n - 1) ?st1 =
      Inr (?st1\<lparr>lines := lines ?st1 @ map (\<lambda>k. Some (mid_line ?st1 H k)) [0..<?n - 1]\<rparr>)"
    using n len by (intro pre_loop_eq) (simp_all add: pt_array_def MAX_POINTS_def)
  show ?thesis
    unfolding pre_separate_def Let_def bound v using h by simp
qed

lemma pre_separate_no_points:
  assumes "num_points st = 0" "length (x_points st) \<le> 1"
  shows "pre_separate st = Inl Memory_Fault"
  using assms
  by (simp add: pre_separate_def pre_loop.simps [of V 0 _ st] pt_array_def)

lemma select_upto:
  fixes sc :: "nat \<Rightarrow> int"
  defines "step \<equiv> (\<lambda>j (line_index, num_link).
         let temp = sc j in if temp > num_link then (j, temp) else (line_index, num_link))"
  shows "case fold step [1..<m] (0, sc 0) of (idx, best) \<Rightarrow>
           idx < max 1 m \<and> best = sc idx \<and> (\<forall>j < max 1 m. sc j \<le> best) \<and> (\<forall>j < idx. sc j < best)"
proof (induction m)
  case 0
  show ?case by simp
next
  case (Suc m)
  show ?case
  proof (cases "m = 0")
    case True
    then show ?thesis by simp
  next
    case False
    obtain idx best where f: "fold step [1..<m] (0, sc 0) = (idx, best)"
      by (cases "fold step [1..<m] (0, sc 0)")
    have IH: "idx < m" "best = sc idx" "\<forall>j < m. sc j \<le> best" "\<forall>j < idx. sc j < best"
      using Suc f False by (auto simp add: max_def)
    have "fold step [1..<Suc m] (0, sc 0) = step m (idx, best)"
      using False f by simp
    also have "\<dots> = (if sc m > best then (m, sc m) else (idx, best))"
      by (simp add: step_def)
    finally have r: "fold step [1..<Suc m] (0, sc 0) = (if sc m > best then (m, sc m) else (idx, best))" .
    show ?thesis
    proof (cases "sc m > best")
      case True
      then show ?thesis
        unfolding r using IH by (auto simp add: less_Suc_eq max_def)
    next
      case False
      then show ?thesis
        unfolding r using IH by (auto simp add: less_Suc_eq max_def)
    qed
  qed
qed

lemma select_line_props:
  assumes "select_line st = (idx, best)"
  shows "idx < max 1 (length (lines st))"
    and "best = links_to_break st (line_at st idx)"
    and "\<forall>j < max 1 (length (lines st)). links_to_break st (line_at st j) \<le> best"
    and "\<forall>j < idx. links_to_break st (line_at st j) < best"
  using select_upto [of "length (lines st)" "\<lambda>j. links_to_break st (line_at st j)"] assms
  by (auto simp add: select_line_def)

subsection \<open>Sorted orders and midpoints\<close>

lemma order_ok_nth:
  assumes "order_ok st a" "i < num_points st"
  shows "pt_array st a ! i < num_points st"
  using assms by (simp add: order_ok_def)

lemma order_ok_mono:
  assumes "order_ok st a" "i \<le> j" "j < num_points st"
  shows "axis_coord st a i \<le> axis_coord st a j"
proof -
  have "sorted (map (axis_coord st a) [0..<num_points st])"
    using assms(1) by (simp add: order_ok_def)
  then have "map (axis_coord st a) [0..<num_points st] ! i
      \<le> map (axis_coord st a) [0..<num_points st] ! j"
    using assms(2,3) by (intro sorted_nth_mono) simp_all
  then show ?thesis using assms(2,3) by simp
qed

lemma order_ok_position:
  assumes "order_ok st a" "p < num_points st"
  shows "\<exists>i < num_points st. pt_array st a ! i = p"
proof -
  have "card (set (pt_array st a)) = num_points st"
    using assms(1) by (simp add: order_ok_def distinct_card)
  moreover have "set (pt_array st a) \<subseteq> {..<num_points st}"
    using assms(1) by (auto simp add: order_ok_def)
  ultimately have "set (pt_array st a) = {..<num_points st}"
    by (intro card_subset_eq) simp_all
  then have "p \<in> set (pt_array st a)" using assms(2) by simp
  then obtain i where "i < length (pt_array st a)" "pt_array st a ! i = p"
    by (auto simp add: in_set_conv_nth)
  then show ?thesis using assms(1) by (auto simp add: order_ok_def)
qed

lemma closest_point_range:
  "- 1 \<le> closest_point st lin" "closest_point st lin < int (num_points st)"
  using closest_scan_range [of st lin 0] by (simp_all add: closest_point_def)

lemma sides_in_range:
  assumes "order_ok st (axis lin)"
  shows "\<forall>p \<in> set (low_side st lin). p < num_points st"
    and "\<forall>q \<in> set (high_side st lin). q < num_points st"
proof -
  have "nat (closest_point st lin + 1) \<le> num_points st"
    using closest_point_range [of st lin] by simp
  then show "\<forall>p \<in> set (low_side st lin). p < num_points st"
    using order_ok_nth [OF assms] by (auto simp add: low_side_def)
  show "\<forall>q \<in> set (high_side st lin). q < num_points st"
    using order_ok_nth [OF assms] by (auto simp add: high_side_def)
qed

text \<open>Where the arithmetic is exact.\<close>

lemma round24_exact:
  assumes "n \<le> 2 ^ 24"
  shows "round24 n = n"
proof (cases "n < 2 ^ 24")
  case True
  then have "ulp24 n = 1" by (simp add: ulp24.simps)
  then show ?thesis by (simp add: round24_def)
next
  case False
  then have n: "n = 16777216" using assms by simp
  have "ulp24 16777216 = 2" by (simp add: ulp24.simps)
  then show ?thesis unfolding n by (simp add: round24_def)
qed

lemma to_float_exact: "\<bar>v\<bar> \<le> 2 ^ 24 \<Longrightarrow> to_float v = v"
  by (simp add: to_float_def round24_exact)

lemma to_float_small: "\<bar>v\<bar> \<le> 2 ^ 23 \<Longrightarrow> to_float v = v"
  by (rule to_float_exact) simp

lemma float_add_exact:
  assumes "\<bar>x\<bar> \<le> 2 ^ 23" "\<bar>y\<bar> \<le> 2 ^ 23"
  shows "float_add x y = x + y"
proof -
  have "\<bar>x + y\<bar> \<le> 2 ^ 24" using assms by simp
  then show ?thesis unfolding float_add_def by (rule to_float_exact)
qed

lemma axis_coord_point:
  assumes e: "exact_state st" and p: "pt_array st a ! i < num_points st"
  shows "axis_coord st a i =
           (case a of V \<Rightarrow> pt_x (mypoints st ! (pt_array st a ! i))
                    | H \<Rightarrow> pt_y (mypoints st ! (pt_array st a ! i)))"
    and "\<bar>axis_coord st a i\<bar> \<le> 2 ^ 23"
proof -
  have r: "\<bar>pt_x (mypoints st ! (pt_array st a ! i))\<bar> \<le> 2 ^ 23"
    "\<bar>pt_y (mypoints st ! (pt_array st a ! i))\<bar> \<le> 2 ^ 23"
    using e p by (simp_all add: exact_state_def)
  then have x: "to_float (pt_x (mypoints st ! (pt_array st a ! i))) =
      pt_x (mypoints st ! (pt_array st a ! i))"
    and y: "to_float (pt_y (mypoints st ! (pt_array st a ! i))) =
      pt_y (mypoints st ! (pt_array st a ! i))"
    by (simp_all add: to_float_exact)
  show "axis_coord st a i =
           (case a of V \<Rightarrow> pt_x (mypoints st ! (pt_array st a ! i))
                    | H \<Rightarrow> pt_y (mypoints st ! (pt_array st a ! i)))"
    using x y by (cases a) (simp_all add: axis_coord_def pt_array_def)
  then show "\<bar>axis_coord st a i\<bar> \<le> 2 ^ 23"
    using r by (cases a) simp_all
qed

lemma closest_point_mid:
  assumes o: "order_ok st a" and k: "k + 1 < num_points st"
    and lt: "axis_coord st a k < axis_coord st a (k + 1)"
    and ex: "float_add (axis_coord st a k) (axis_coord st a (k + 1)) =
      axis_coord st a k + axis_coord st a (k + 1)"
  shows "closest_point st (mid_line st a k) = int k"
proof -
  let ?c = "coord (mid_line st a k)"
  have c: "?c = (of_int (axis_coord st a k) + of_int (axis_coord st a (k + 1))) / 2"
    using ex by (simp add: mid_line_def)
  have "(of_int (axis_coord st a k) :: rat) < of_int (axis_coord st a (k + 1))"
    using lt by simp
  then have hi: "?c < of_int (axis_coord st a (k + 1))"
    and lo: "of_int (axis_coord st a k) \<le> ?c"
    unfolding c by (simp_all add: field_simps)
  have "\<forall>m. 0 \<le> m \<and> m < k + 1 \<longrightarrow> of_int (axis_coord st a m) \<le> ?c"
  proof (intro allI impI)
    fix m assume "0 \<le> m \<and> m < k + 1"
    then have "axis_coord st a m \<le> axis_coord st a k"
      using k by (intro order_ok_mono [OF o]) simp_all
    then have "(of_int (axis_coord st a m) :: rat) \<le> of_int (axis_coord st a k)"
      by simp
    then show "of_int (axis_coord st a m) \<le> ?c" using lo by simp
  qed
  then have "closest_scan st (mid_line st a k) 0 = int (k + 1) - 1"
    using k hi by (intro closest_scan_first) (simp_all add: mid_line_def)
  then show ?thesis by (simp add: closest_point_def)
qed

lemma adjacent_gap:
  assumes o: "order_ok st a"
  shows "i < j \<Longrightarrow> j < num_points st \<Longrightarrow> axis_coord st a i < axis_coord st a j \<Longrightarrow>
     \<exists>k. i \<le> k \<and> k < j \<and> axis_coord st a k < axis_coord st a (k + 1)"
proof (induction j)
  case 0
  then show ?case by simp
next
  case (Suc j)
  show ?case
  proof (cases "axis_coord st a j < axis_coord st a (Suc j)")
    case True
    then show ?thesis using Suc.prems by (intro exI [of _ j]) simp
  next
    case False
    then have "axis_coord st a i < axis_coord st a j"
      using Suc.prems by simp
    moreover from this have "i \<noteq> j" by auto
    then have "i < j" using Suc.prems by simp
    ultimately obtain k where "i \<le> k" "k < j" "axis_coord st a k < axis_coord st a (k + 1)"
      using Suc.IH Suc.prems by auto
    then show ?thesis by (intro exI [of _ k]) simp
  qed
qed

subsection \<open>A candidate that cuts a link\<close>

lemma slot_line_mid:
  assumes "k < num_points st - 1"
  shows "slot_line st (case a of V \<Rightarrow> k | H \<Rightarrow> num_points st - 1 + k) = mid_line st a k"
    and "(case a of V \<Rightarrow> k | H \<Rightarrow> num_points st - 1 + k) < 2 * (num_points st - 1)"
  using assms by (cases a; simp add: slot_line_def)+

lemma sides_mid:
  assumes o: "order_ok st a" and k: "k + 1 < num_points st"
    and lt: "axis_coord st a k < axis_coord st a (k + 1)"
    and ex: "float_add (axis_coord st a k) (axis_coord st a (k + 1)) =
      axis_coord st a k + axis_coord st a (k + 1)"
    and i: "i \<le> k" and j: "k < j" "j < num_points st"
  shows "pt_array st a ! i \<in> set (low_side st (mid_line st a k))"
    and "pt_array st a ! j \<in> set (high_side st (mid_line st a k))"
proof -
  have c: "closest_point st (mid_line st a k) = int k"
    by (rule closest_point_mid [OF o k lt ex])
  have ax: "axis (mid_line st a k) = a" by (simp add: mid_line_def)
  have "i \<in> set [0..<nat (int k + 1)]" using i by simp
  then show "pt_array st a ! i \<in> set (low_side st (mid_line st a k))"
    unfolding low_side_def c ax by auto
  have "j \<in> set [nat (int k + 1)..<num_points st]" using j by simp
  then show "pt_array st a ! j \<in> set (high_side st (mid_line st a k))"
    unfolding high_side_def c ax by auto
qed

lemma linked_pair_exists:
  assumes g: "graph_inv st" and e: "0 < num_edges st"
  shows "\<exists>p < num_points st. \<exists>q < num_points st. linked st p q"
proof -
  have "active_count st > 0" using g e by (simp add: graph_inv_def)
  then have "active_entries st \<noteq> []" by (auto simp add: active_count_def)
  then obtain pq where "pq \<in> set (active_entries st)"
    by (cases "active_entries st") auto
  then obtain x y where "x < num_points st" "y < num_points st" "linked st x y"
    by (auto simp add: active_entries_def)
  then show ?thesis by blast
qed

lemma positive_candidate:
  assumes inv: "loop_inv st" and e: "0 < num_edges st"
  shows "\<exists>j < length (lines st). 0 < links_to_break st (line_at st j)"
proof -
  let ?n = "num_points st"
  have g: "graph_inv st" using inv by (simp add: loop_inv_def)
  have ids: "ids_ok st" using g by (simp add: graph_inv_def)
  obtain p q where p: "p < ?n" and q: "q < ?n" and l: "linked st p q"
    using linked_pair_exists [OF g e] by blast
  have pq: "p \<noteq> q" using graph_inv_linked(2) [OF g p p] l by auto
  have "distinct (map (\<lambda>p. (pt_x p, pt_y p)) (mypoints st))"
    using inv by (simp add: loop_inv_def)
  then have differ: "(pt_x (mypoints st ! p), pt_y (mypoints st ! p))
      \<noteq> (pt_x (mypoints st ! q), pt_y (mypoints st ! q))"
    using p q pq by (auto simp add: distinct_conv_nth num_points_def)
  then obtain a where diff:
    "(case a of V \<Rightarrow> pt_x (mypoints st ! p) | H \<Rightarrow> pt_y (mypoints st ! p))
      \<noteq> (case a of V \<Rightarrow> pt_x (mypoints st ! q) | H \<Rightarrow> pt_y (mypoints st ! q))"
  proof (cases "pt_x (mypoints st ! p) = pt_x (mypoints st ! q)")
    case True
    then show ?thesis using that [of H] differ by simp
  next
    case False
    then show ?thesis using that [of V] by simp
  qed
  have o: "order_ok st a" using inv by (cases a) (simp_all add: loop_inv_def)
  obtain i where i: "i < ?n" "pt_array st a ! i = p"
    using order_ok_position [OF o p] by blast
  obtain j where j: "j < ?n" "pt_array st a ! j = q"
    using order_ok_position [OF o q] by blast
  have es: "exact_state st" using inv by (simp add: loop_inv_def)
  have raw: "axis_coord st a m =
      (case a of V \<Rightarrow> pt_x (mypoints st ! (pt_array st a ! m))
               | H \<Rightarrow> pt_y (mypoints st ! (pt_array st a ! m)))"
    and small: "\<bar>axis_coord st a m\<bar> \<le> 2 ^ 23" if "m < ?n" for m
    using axis_coord_point [OF es order_ok_nth [OF o that]] by simp_all
  have ne: "axis_coord st a i \<noteq> axis_coord st a j"
    using diff i j raw [OF i(1)] raw [OF j(1)] by (cases a) simp_all
  have ij: "i \<noteq> j" using ne by auto
  obtain i' j' where ord: "i' < j'" "j' < ?n" "axis_coord st a i' < axis_coord st a j'"
    and l': "linked st (pt_array st a ! i') (pt_array st a ! j')"
  proof (cases "i < j")
    case True
    then have "axis_coord st a i \<le> axis_coord st a j"
      using j by (intro order_ok_mono [OF o]) simp_all
    then show ?thesis using that [of i j] True j i l ne by simp
  next
    case False
    then have ji: "j < i" using ij by simp
    then have "axis_coord st a j \<le> axis_coord st a i"
      using i by (intro order_ok_mono [OF o]) simp_all
    moreover have "linked st q p" using graph_inv_linked(1) [OF g p q] l by simp
    ultimately show ?thesis using that [of j i] ji j i ne by simp
  qed
  obtain k where k: "i' \<le> k" "k < j'" "axis_coord st a k < axis_coord st a (k + 1)"
    using adjacent_gap [OF o ord] by blast
  have k1: "k + 1 < ?n" using k ord by simp
  have ex: "float_add (axis_coord st a k) (axis_coord st a (k + 1)) =
      axis_coord st a k + axis_coord st a (k + 1)"
    using k1 by (intro float_add_exact small) simp_all
  let ?J = "case a of V \<Rightarrow> k | H \<Rightarrow> ?n - 1 + k"
  let ?l = "mid_line st a k"
  have J: "slot_line st ?J = ?l" "?J < 2 * (?n - 1)"
    using slot_line_mid [of k st a] k1 by simp_all
  have len: "length (lines st) = 2 * (?n - 1)" using inv by (simp add: loop_inv_def)
  have slot: "case lines st ! ?J of Some l \<Rightarrow> l = slot_line st ?J
      | None \<Rightarrow> cut_clear st (slot_line st ?J)"
    using inv J(2) by (simp add: loop_inv_def)
  have low: "pt_array st a ! i' \<in> set (low_side st ?l)"
    and high: "pt_array st a ! j' \<in> set (high_side st ?l)"
    using sides_mid [OF o k1 k(3) ex k(1) k(2) ord(2)] by simp_all
  have ax: "axis ?l = a" by (simp add: mid_line_def)
  show ?thesis
  proof (cases "lines st ! ?J")
    case None
    then have "cut_clear st ?l" using slot J(1) by simp
    then show ?thesis using low high l' by (auto simp add: cut_clear_def)
  next
    case (Some l0)
    then have "line_at st ?J = Some ?l"
      using slot J len by (simp add: line_at_def)
    moreover have "0 < links_to_break st (Some ?l)"
      using links_to_break_pos(2) [OF ids sides_in_range [of st ?l]] o ax low high l'
      by auto
    ultimately show ?thesis using J(2) len by (intro exI [of _ ?J]) simp
  qed
qed

subsection \<open>One iteration of the loop\<close>

lemma same_points_upd [simp]:
  "same_points st (st'\<lparr>lines := l\<rparr>) = same_points st st'"
  "same_points st (st'\<lparr>final_lines := f\<rparr>) = same_points st st'"
  by (simp_all add: same_points_def num_points_def)

lemma linked_upd [simp]:
  "linked (st\<lparr>lines := l\<rparr>) = linked st"
  "linked (st\<lparr>final_lines := f\<rparr>) = linked st"
  by (simp_all add: linked_def fun_eq_iff)

lemma num_points_upd [simp]:
  "num_points (st\<lparr>lines := l\<rparr>) = num_points st"
  "num_points (st\<lparr>final_lines := f\<rparr>) = num_points st"
  by (simp_all add: num_points_def)

lemma graph_inv_upd [simp]:
  "graph_inv (st\<lparr>lines := l\<rparr>) = graph_inv st"
  "graph_inv (st\<lparr>final_lines := f\<rparr>) = graph_inv st"
  by (simp_all add: graph_inv_def ids_ok_def active_count_def active_entries_def)

lemma order_ok_same:
  assumes "same_points st st'"
  shows "order_ok st' a = order_ok st a"
proof -
  have "axis_coord st' a = axis_coord st a"
    using same_points_axis(1) [OF assms] by (simp add: fun_eq_iff)
  then show ?thesis
    using same_points_axis(2,3) [OF assms] by (simp add: order_ok_def)
qed

lemma exact_state_same:
  assumes "same_points st st'"
  shows "exact_state st' = exact_state st"
  using assms by (simp add: exact_state_def same_points_def)

lemma slot_line_same:
  assumes "same_points st st'"
  shows "slot_line st' j = slot_line st j"
  using same_points_axis(1,3) [OF assms] by (simp add: slot_line_def mid_line_def)

lemma points_same:
  assumes "same_points st st'"
  shows "map (\<lambda>p. (pt_x p, pt_y p)) (mypoints st') = map (\<lambda>p. (pt_x p, pt_y p)) (mypoints st)"
  using assms by (intro nth_equalityI) (simp_all add: same_points_def num_points_def)

lemma cut_clear_mono:
  assumes sp: "same_points st st'" and o: "order_ok st (axis lin)"
    and sub: "\<forall>p < num_points st. \<forall>q < num_points st. linked st' p q \<longrightarrow> linked st p q"
    and c: "cut_clear st lin"
  shows "cut_clear st' lin"
  using c sub sides_in_range [OF o] unfolding cut_clear_def sides_same [OF sp]
  by blast

lemma live_count_consume:
  assumes "idx < length xs" "xs ! idx \<noteq> None"
  shows "length (filter (\<lambda>l. l \<noteq> None) (xs[idx := None])) + 1 = length (filter (\<lambda>l. l \<noteq> None) xs)"
proof -
  have "xs = take idx xs @ xs ! idx # drop (Suc idx) xs"
    using assms(1) by (rule id_take_nth_drop)
  then have "length (filter (\<lambda>l. l \<noteq> None) xs) =
      length (filter (\<lambda>l. l \<noteq> None) (take idx xs @ xs ! idx # drop (Suc idx) xs))"
    by simp
  moreover have "xs[idx := None] = take idx xs @ None # drop (Suc idx) xs"
    using assms(1) by (rule upd_conv_take_nth_drop)
  ultimately show ?thesis using assms(2) by simp
qed

lemma axis_slot_line: "order_ok st V \<Longrightarrow> order_ok st H \<Longrightarrow> order_ok st (axis (slot_line st j))"
  by (simp add: slot_line_def mid_line_def)

lemma iteration_step:
  assumes inv: "loop_inv st" and e: "0 < num_edges st"
  shows "loop_inv (iteration st) \<and> num_edges (iteration st) < num_edges st \<and>
         live_count (iteration st) + 1 = live_count st \<and>
         num_points (iteration st) = num_points st \<and>
         (\<exists>lin. line_at st (fst (select_line st)) = Some lin \<and>
                0 < links_to_break st (Some lin) \<and>
                final_lines (iteration st) = final_lines st @ [lin])"
proof -
  let ?n = "num_points st"
  have g: "graph_inv st" and oV: "order_ok st V" and oH: "order_ok st H"
    and len: "length (lines st) = 2 * (?n - 1)"
    and dist: "distinct (map (\<lambda>p. (pt_x p, pt_y p)) (mypoints st))"
    and es: "exact_state st"
    using inv by (simp_all add: loop_inv_def)
  have slots: "\<And>j. j < 2 * (?n - 1) \<Longrightarrow>
      (case lines st ! j of Some l \<Rightarrow> l = slot_line st j | None \<Rightarrow> cut_clear st (slot_line st j))"
    using inv by (simp add: loop_inv_def)
  have ids: "ids_ok st" using g by (simp add: graph_inv_def)
  obtain idx best where sel: "select_line st = (idx, best)"
    by (cases "select_line st")
  obtain j where j: "j < length (lines st)" "0 < links_to_break st (line_at st j)"
    using positive_candidate [OF inv e] by blast
  have "links_to_break st (line_at st j) \<le> best"
    using select_line_props(3) [OF sel] j(1) by (simp add: max_def)
  then have pos: "0 < links_to_break st (line_at st idx)"
    using j(2) select_line_props(2) [OF sel] by simp
  then obtain lin where lin: "line_at st idx = Some lin"
    by (cases "line_at st idx") (simp_all add: links_to_break_def)
  then have idx: "idx < length (lines st)" "lines st ! idx = Some lin"
    by (simp_all add: line_at_def split: if_splits)
  have lin_slot: "lin = slot_line st idx"
    using slots [of idx] idx len by simp
  have o: "order_ok st (axis lin)"
    unfolding lin_slot by (rule axis_slot_line [OF oV oH])
  define C where "C = set (low_side st lin) \<times> set (high_side st lin)"
  define st1 where "st1 = fold (\<lambda>p s. fold (\<lambda>q s. unlink_points p q s) (high_side st lin) s)
      (low_side st lin) st"
  have r: "removes st st1 C"
    unfolding st1_def C_def using g sides_in_range [OF o] by (intro removes_outer)
  have g1: "graph_inv st1" and sp: "same_points st st1" and l1: "lines st1 = lines st"
    and f1: "final_lines st1 = final_lines st"
    and lk: "\<And>a b. a < ?n \<Longrightarrow> b < ?n \<Longrightarrow>
        linked st1 a b \<longleftrightarrow> linked st a b \<and> (a, b) \<notin> C \<and> (b, a) \<notin> C"
    using r by (simp_all add: removes_def)
  have n1: "num_points st1 = ?n" using sp by (simp add: same_points_def)
  define st2 where "st2 = st1\<lparr>final_lines := final_lines st @ [lin], lines := (lines st)[idx := None]\<rparr>"
  have it: "iteration st = st2"
    using sel lin by (simp add: iteration_def finalize_lines_sides Let_def st1_def [symmetric] st2_def f1 l1)
  have sp2: "same_points st st2" using sp by (simp add: st2_def)
  have n2: "num_points st2 = ?n" by (simp add: st2_def n1)
  have lk2: "linked st2 = linked st1" by (simp add: st2_def)
  have g2: "graph_inv st2" using g1 by (simp add: st2_def)
  have sub: "\<forall>p < ?n. \<forall>q < ?n. linked st2 p q \<longrightarrow> linked st p q"
    using lk by (simp add: lk2)
  have cut_idx: "cut_clear st2 lin"
    unfolding cut_clear_def sides_same [OF sp2] lk2
    using lk sides_in_range [OF o] by (auto simp add: C_def)
  have sl2: "\<And>j. slot_line st2 j = slot_line st j" by (rule slot_line_same [OF sp2])
  have lines2: "lines st2 = (lines st)[idx := None]" by (simp add: st2_def)
  have slots2: "case lines st2 ! j of Some l \<Rightarrow> l = slot_line st2 j
      | None \<Rightarrow> cut_clear st2 (slot_line st2 j)" if "j < 2 * (?n - 1)" for j
  proof (cases "j = idx")
    case True
    then show ?thesis
      using idx cut_idx lin_slot by (simp add: lines2 sl2)
  next
    case False
    have "cut_clear st2 (slot_line st j)" if "cut_clear st (slot_line st j)"
      using that by (intro cut_clear_mono [OF sp2 axis_slot_line [OF oV oH] sub])
    then show ?thesis
      using False slots [OF \<open>j < 2 * (?n - 1)\<close>]
      by (simp add: lines2 sl2 split: option.splits)
  qed
  have inv2: "loop_inv st2"
    unfolding loop_inv_def
    using g2 oV oH dist len slots2 es
    by (simp add: order_ok_same [OF sp2] points_same [OF sp2] exact_state_same [OF sp2] n2 lines2)
  obtain p q where pq: "p \<in> set (low_side st lin)" "q \<in> set (high_side st lin)" "linked st p q"
    using pos lin links_to_break_pos(2) [OF ids sides_in_range [OF o]] by auto
  have pn: "p < ?n" and qn: "q < ?n" using pq sides_in_range [OF o] by auto
  let ?A = "{(i, j). i < ?n \<and> j < ?n \<and> linked st i j}"
  let ?B = "{(i, j). i < ?n \<and> j < ?n \<and> linked st1 i j}"
  have "?B \<subseteq> ?A" using lk by auto
  moreover have "(p, q) \<in> ?A" using pq pn qn by simp
  moreover have "(p, q) \<notin> ?B" using lk [OF pn qn] pq by (simp add: C_def)
  ultimately have "?B \<subset> ?A" by blast
  then have "card ?B < card ?A"
    using finite_active [of st] by (intro psubset_card_mono)
  then have "active_count st1 < active_count st"
    by (simp add: active_count_card n1)
  then have dec: "num_edges st2 < num_edges st"
    using g g1 by (simp add: graph_inv_def st2_def)
  have live: "live_count st2 + 1 = live_count st"
    using live_count_consume [of idx "lines st"] idx by (simp add: live_count_def st2_def)
  have fin: "final_lines st2 = final_lines st @ [lin]" by (simp add: st2_def)
  show ?thesis
    unfolding it using inv2 dec live fin lin pos sel n2 by simp
qed

subsection \<open>The loop and the state it starts from\<close>

lemma loop_halts:
  assumes "loop_inv st" "live_count st \<le> L"
  shows "\<exists>k \<le> L. (\<forall>j < k. 0 < num_edges ((iteration ^^ j) st)) \<and>
           num_edges ((iteration ^^ k) st) = 0 \<and>
           main_loop st = Some ((iteration ^^ k) st) \<and>
           loop_inv ((iteration ^^ k) st) \<and>
           num_points ((iteration ^^ k) st) = num_points st"
  using assms
proof (induction L arbitrary: st)
  case 0
  have "num_edges st = 0"
  proof (rule ccontr)
    assume "num_edges st \<noteq> 0"
    then have "live_count (iteration st) + 1 = live_count st"
      using iteration_step [OF "0.prems"(1)] by simp
    then show False using "0.prems"(2) by simp
  qed
  then show ?case using "0.prems"(1) by (simp add: main_loop.simps [of st])
next
  case (Suc L)
  show ?case
  proof (cases "num_edges st = 0")
    case True
    then have "(\<forall>j < 0. 0 < num_edges ((iteration ^^ j) st)) \<and>
           num_edges ((iteration ^^ 0) st) = 0 \<and>
           main_loop st = Some ((iteration ^^ 0) st) \<and>
           loop_inv ((iteration ^^ 0) st) \<and>
           num_points ((iteration ^^ 0) st) = num_points st"
      using Suc.prems(1) by (simp add: main_loop.simps [of st])
    then show ?thesis by blast
  next
    case False
    then have e: "0 < num_edges st" by simp
    have step: "loop_inv (iteration st)" "live_count (iteration st) + 1 = live_count st"
      "num_points (iteration st) = num_points st"
      using iteration_step [OF Suc.prems(1) e] by simp_all
    have "live_count (iteration st) \<le> L" using step(2) Suc.prems(2) by simp
    then obtain k where k: "k \<le> L"
      "\<forall>j < k. 0 < num_edges ((iteration ^^ j) (iteration st))"
      "num_edges ((iteration ^^ k) (iteration st)) = 0"
      "main_loop (iteration st) = Some ((iteration ^^ k) (iteration st))"
      "loop_inv ((iteration ^^ k) (iteration st))"
      "num_points ((iteration ^^ k) (iteration st)) = num_points (iteration st)"
      using Suc.IH [OF step(1)] by blast
    have sw: "\<And>j. (iteration ^^ Suc j) st = (iteration ^^ j) (iteration st)"
      by (simp add: funpow_swap1)
    have "\<forall>j < Suc k. 0 < num_edges ((iteration ^^ j) st)"
    proof (intro allI impI)
      fix j assume "j < Suc k"
      then show "0 < num_edges ((iteration ^^ j) st)"
        using e k(2) sw by (cases j) simp_all
    qed
    moreover have "main_loop st = Some ((iteration ^^ Suc k) st)"
      using e k(4) unfolding sw by (simp add: main_loop.simps [of st])
    ultimately have "Suc k \<le> Suc L \<and> (\<forall>j < Suc k. 0 < num_edges ((iteration ^^ j) st)) \<and>
           num_edges ((iteration ^^ Suc k) st) = 0 \<and>
           main_loop st = Some ((iteration ^^ Suc k) st) \<and>
           loop_inv ((iteration ^^ Suc k) st) \<and>
           num_points ((iteration ^^ Suc k) st) = num_points st"
      unfolding sw using k step(3) by simp
    then show ?thesis by blast
  qed
qed

lemma no_links_left:
  assumes g: "graph_inv st" and e: "num_edges st = 0"
    and p: "p < num_points st" and q: "q < num_points st"
  shows "\<not> linked st p q"
proof
  assume "linked st p q"
  then have "(p, q) \<in> set (active_entries st)"
    using p q by (simp add: active_entries_def)
  then have "active_count st \<noteq> 0"
    by (auto simp add: active_count_def)
  then show False using g e by (simp add: graph_inv_def)
qed

lemma load_points_fields [simp]:
  "num_points (load_points ps st) = length ps"
  "x_points (load_points ps st) = [0..<length ps]"
  "y_points (load_points ps st) = [0..<length ps]"
  "lines (load_points ps st) = lines st"
  "final_lines (load_points ps st) = final_lines st"
  "num_edges (load_points ps st) = num_edges st"
  by (simp_all add: load_points_def num_points_def)

lemma load_points_coords:
  "i < length ps \<Longrightarrow> pt_x (mypoints (load_points ps st) ! i) = fst (ps ! i)"
  "i < length ps \<Longrightarrow> pt_y (mypoints (load_points ps st) ! i) = snd (ps ! i)"
  by (simp_all add: load_points_def split_beta)

lemma setup_instance_inv:
  assumes n: "1 \<le> length ps" "length ps \<le> MAX_POINTS"
    and d: "distinct ps" and sx: "sorted (map fst ps)"
    and perm: "mset ys = mset [0..<length ps]"
    and sy: "sorted (map (\<lambda>p. snd (ps ! p)) ys)"
    and fresh: "lines st = []" "num_edges st = 0"
    and ex: "exact_coords ps"
  shows "\<exists>st0. setup_instance ys (load_points ps st) = Inr st0 \<and> loop_inv st0 \<and>
           num_points st0 = length ps \<and>
           lines st0 = map (\<lambda>k. Some (mid_line st0 V k)) [0..<length ps - 1] @
                       map (\<lambda>k. Some (mid_line st0 H k)) [0..<length ps - 1] \<and>
           final_lines st0 = final_lines st \<and>
           num_edges st0 = length ps * (length ps - 1) \<and>
           (\<forall>i < length ps. \<forall>j < length ps. linked st0 i j \<longleftrightarrow> i \<noteq> j) \<and>
           (\<forall>i < length ps. axis_coord st0 V i = fst (ps ! i) \<and>
                axis_coord st0 H i = snd (ps ! (ys ! i)))"
proof -
  let ?n = "length ps"
  have small: "\<bar>fst (ps ! i)\<bar> \<le> 2 ^ 23" "\<bar>snd (ps ! i)\<bar> \<le> 2 ^ 23" if "i < ?n" for i
    using ex that nth_mem [of i ps] by (auto simp add: exact_coords_def)
  let ?s = "(load_points ps st)\<lparr>y_points := ys\<rparr>"
  have ns: "num_points ?s = ?n" by (simp add: num_points_def load_points_def)
  let ?s1 = "fold link_point [0..<num_points ?s] ?s"
  have e0: "num_edges ?s = 0" "num_edges ?s < 2 ^ 32" using fresh by simp_all
  have np: "num_points ?s \<le> MAX_POINTS" using n ns by simp
  have lp: "link_points ?s = Inr ?s1"
    using link_points_result [OF np e0(2)] e0(1) by simp
  note lf = link_fold_graph [OF np e0(1)]
  have g1: "graph_inv ?s1" by (rule lf(1))
  have sp: "same_points ?s ?s1" by (rule lf(2))
  have n1: "num_points ?s1 = ?n" using sp ns by (simp add: same_points_def)
  have xs1: "x_points ?s1 = [0..<?n]" and ys1: "y_points ?s1 = ys"
    using sp by (simp_all add: same_points_def)
  have l1: "lines ?s1 = []" using lf(3) fresh by simp
  have leny: "length ys = ?n" using perm mset_eq_length by fastforce
  have sety: "set ys = {0..<?n}" using perm mset_eq_setD by fastforce
  have disty: "distinct ys" using perm mset_eq_imp_distinct_iff by fastforce
  define L where "L = map (\<lambda>k. Some (mid_line ?s1 V k)) [0..<?n - 1] @
      map (\<lambda>k. Some (mid_line ?s1 H k)) [0..<?n - 1]"
  define st0 where "st0 = ?s1\<lparr>lines := L\<rparr>"
  have ps1: "pre_separate ?s1 = Inr st0"
    unfolding st0_def L_def
    using pre_separate_eq [of ?s1] n n1 xs1 ys1 leny l1 by simp
  have su: "setup_instance ys (load_points ps st) = Inr st0"
    by (simp add: setup_instance_def lp ps1)
  have sp0: "same_points ?s st0" using sp by (simp add: st0_def)
  have n0: "num_points st0 = ?n" by (simp add: st0_def n1)
  have ml: "\<And>a k. mid_line st0 a k = mid_line ?s1 a k" by (simp add: st0_def)
  have cx: "axis_coord st0 V i = fst (ps ! i)" if "i < ?n" for i
    using that same_points_axis(1) [OF sp0, of V i] small(1) [OF that]
    by (simp add: axis_coord_def to_float_small load_points_coords)
  have cy: "axis_coord st0 H i = snd (ps ! (ys ! i))" if "i < ?n" for i
  proof -
    have "ys ! i < ?n" using that leny sety nth_mem [of i ys] by auto
    then show ?thesis
      using same_points_axis(1) [OF sp0, of H i] small(2) [of "ys ! i"]
      by (simp add: axis_coord_def to_float_small load_points_coords)
  qed
  have "map (axis_coord st0 V) [0..<?n] = map fst ps"
    by (intro nth_equalityI) (simp_all add: cx)
  then have sV: "sorted (map (axis_coord st0 V) [0..<?n])" using sx by simp
  have "map (axis_coord st0 H) [0..<?n] = map (\<lambda>p. snd (ps ! p)) ys"
    using leny by (intro nth_equalityI) (simp_all add: cy)
  then have sH: "sorted (map (axis_coord st0 H) [0..<?n])" using sy by simp
  have "exact_state (load_points ps st)"
    using small by (simp add: exact_state_def load_points_coords)
  then have "exact_state ?s"
    by (simp add: exact_state_def num_points_def)
  then have es: "exact_state st0" by (simp add: exact_state_same [OF sp0])
  have xp0: "x_points st0 = [0..<?n]" and yp0: "y_points st0 = ys"
    by (simp_all add: st0_def xs1 ys1)
  have oV: "order_ok st0 V"
    using sV by (simp add: order_ok_def pt_array_def n0 xp0)
  have oH: "order_ok st0 H"
    using sH leny sety disty by (simp add: order_ok_def pt_array_def n0 yp0)
  have "map (\<lambda>p. (pt_x p, pt_y p)) (mypoints (load_points ps st)) = ps"
    by (intro nth_equalityI) (simp_all add: load_points_def split_beta)
  then have "map (\<lambda>p. (pt_x p, pt_y p)) (mypoints st0) = ps"
    using points_same [OF sp0] by simp
  then have dist: "distinct (map (\<lambda>p. (pt_x p, pt_y p)) (mypoints st0))"
    using d by simp
  have g0: "graph_inv st0" using g1 by (simp add: st0_def)
  have lines0: "lines st0 = map (\<lambda>k. Some (mid_line st0 V k)) [0..<?n - 1] @
      map (\<lambda>k. Some (mid_line st0 H k)) [0..<?n - 1]"
    by (simp add: ml) (simp add: st0_def L_def)
  have slots: "\<forall>j \<in> set [0..<2 * (?n - 1)].
      case lines st0 ! j of Some l \<Rightarrow> l = slot_line st0 j | None \<Rightarrow> cut_clear st0 (slot_line st0 j)"
    unfolding lines0 by (auto simp add: nth_append slot_line_def n0)
  have inv: "loop_inv st0"
    unfolding loop_inv_def using g0 es oV oH dist slots by (simp add: n0) (simp add: lines0)
  have fl: "final_lines st0 = final_lines st" using lf(4) by (simp add: st0_def)
  have ne: "num_edges st0 = ?n * (?n - 1)" using lf(6) ns by (simp add: st0_def)
  have lk: "\<forall>i < ?n. \<forall>j < ?n. linked st0 i j \<longleftrightarrow> i \<noteq> j"
    using lf(5) ns by (simp add: st0_def)
  show ?thesis
    using su inv n0 lines0 fl ne lk cx cy by blast
qed



lemma reach_inv:
  assumes "loop_inv st0" "\<forall>j < k. 0 < num_edges ((iteration ^^ j) st0)"
  shows "loop_inv ((iteration ^^ k) st0)"
  using assms(2)
proof (induction k)
  case 0
  show ?case using assms(1) by simp
next
  case (Suc k)
  then have "loop_inv ((iteration ^^ k) st0)" "0 < num_edges ((iteration ^^ k) st0)"
    by simp_all
  then show ?case using iteration_step by simp
qed


subsection \<open>finalize_lines and the parity of the count\<close>

lemma ptrs_sides_in_range:
  assumes "length (pt_array st (axis lin)) = num_points st"
    "\<forall>p \<in> set (pt_array st (axis lin)). p < num_points st"
  shows "\<forall>p \<in> set (low_side st lin). p < num_points st"
    and "\<forall>q \<in> set (high_side st lin). q < num_points st"
proof -
  have "nat (closest_point st lin + 1) \<le> num_points st"
    using closest_point_range [of st lin] by simp
  then show "\<forall>p \<in> set (low_side st lin). p < num_points st"
    using assms by (auto simp add: low_side_def)
  show "\<forall>q \<in> set (high_side st lin). q < num_points st"
    using assms by (auto simp add: high_side_def)
qed

lemma finalize_lines_removes:
  assumes g: "graph_inv st"
    and len: "length (pt_array st (axis lin)) = num_points st"
    and ptr: "\<forall>p \<in> set (pt_array st (axis lin)). p < num_points st"
  shows "\<exists>st1. removes st st1 (set (low_side st lin) \<times> set (high_side st lin)) \<and>
           finalize_lines (Some lin) st = st1\<lparr>final_lines := final_lines st @ [lin]\<rparr>"
proof -
  let ?st1 = "fold (\<lambda>p s. fold (\<lambda>q s. unlink_points p q s) (high_side st lin) s) (low_side st lin) st"
  have r: "removes st ?st1 (set (low_side st lin) \<times> set (high_side st lin))"
    using g ptrs_sides_in_range [OF len ptr] by (intro removes_outer)
  then have "final_lines ?st1 = final_lines st" by (simp add: removes_def)
  then have "finalize_lines (Some lin) st = ?st1\<lparr>final_lines := final_lines st @ [lin]\<rparr>"
    by (simp add: finalize_lines_sides Let_def)
  then show ?thesis using r by blast
qed

lemma symmetric_count_even:
  assumes g: "graph_inv st"
  shows "even (active_count st)"
proof -
  let ?n = "num_points st"
  let ?A = "{(i, j). i < ?n \<and> j < ?n \<and> linked st i j}"
  let ?L = "{(i, j). i < ?n \<and> j < ?n \<and> linked st i j \<and> i < j}"
  let ?R = "{(i, j). i < ?n \<and> j < ?n \<and> linked st i j \<and> j < i}"
  have fin: "finite ?L" "finite ?R"
    using finite_active [of st] by (auto intro: finite_subset [of _ ?A])
  have irr: "\<not> linked st a a" if "a < ?n" for a
    using graph_inv_linked(2) [OF g that that] .
  have "a < b \<or> b < a" if "a < ?n" "linked st a b" for a b
    using irr [OF that(1)] that(2) by (cases a b rule: linorder_cases) auto
  then have "?A = ?L \<union> ?R" by auto
  moreover have "?L \<inter> ?R = {}" by auto
  ultimately have "card ?A = card ?L + card ?R"
    using fin card_Un_disjoint [of ?L ?R] by simp
  moreover have "?R = prod.swap ` ?L"
    using graph_inv_linked(1) [OF g] by (auto simp add: image_iff)
  then have "card ?R = card ?L"
    by (simp add: card_image)
  ultimately show ?thesis by (simp add: active_count_card)
qed


subsection \<open>A loop with nothing left to cut\<close>

lemma same_points_ptrs:
  assumes "same_points st st'"
  shows "ptrs_ok st' a = ptrs_ok st a"
  using same_points_axis(2,3) [OF assms] by (simp add: ptrs_ok_def)

lemma ptrs_ok_sides:
  assumes "ptrs_ok st (axis lin)"
  shows "\<forall>p \<in> set (low_side st lin). p < num_points st"
    and "\<forall>q \<in> set (high_side st lin). q < num_points st"
proof -
  have a: "length (pt_array st (axis lin)) = num_points st"
    and b: "\<forall>p \<in> set (pt_array st (axis lin)). p < num_points st"
    using assms unfolding ptrs_ok_def by blast+
  show "\<forall>p \<in> set (low_side st lin). p < num_points st"
    by (rule ptrs_sides_in_range(1) [OF a b])
  show "\<forall>q \<in> set (high_side st lin). q < num_points st"
    by (rule ptrs_sides_in_range(2) [OF a b])
qed

lemma ptrs_ok_finalize:
  assumes "graph_inv st" "ptrs_ok st (axis lin)"
  shows "\<exists>st1. removes st st1 (set (low_side st lin) \<times> set (high_side st lin)) \<and>
           finalize_lines (Some lin) st = st1\<lparr>final_lines := final_lines st @ [lin]\<rparr>"
proof -
  have a: "length (pt_array st (axis lin)) = num_points st"
    and b: "\<forall>p \<in> set (pt_array st (axis lin)). p < num_points st"
    using assms(2) unfolding ptrs_ok_def by blast+
  show ?thesis by (rule finalize_lines_removes [OF assms(1) a b])
qed

lemma score_zero_no_cut:
  assumes ids: "ids_ok st" and p: "ptrs_ok st (axis lin)"
  shows "0 \<le> links_to_break st (Some lin)"
    and "links_to_break st (Some lin) \<le> 0 \<longleftrightarrow>
      (\<forall>p \<in> set (low_side st lin). \<forall>q \<in> set (high_side st lin). \<not> linked st p q)"
proof -
  have r: "\<forall>p \<in> set (low_side st lin). p < num_points st"
    "\<forall>q \<in> set (high_side st lin). q < num_points st"
    by (rule ptrs_ok_sides [OF p])+
  show "0 \<le> links_to_break st (Some lin)"
    by (rule links_to_break_pos(1) [OF ids r])
  show "links_to_break st (Some lin) \<le> 0 \<longleftrightarrow>
      (\<forall>p \<in> set (low_side st lin). \<forall>q \<in> set (high_side st lin). \<not> linked st p q)"
    unfolding not_less [symmetric] links_to_break_pos(2) [OF ids r] by simp
qed

lemma ptrs_ok_axis: "ptrs_ok st V \<Longrightarrow> ptrs_ok st H \<Longrightarrow> ptrs_ok st a"
  by (cases a) simp_all

lemma stuck_iteration:
  assumes s: "stuck st"
  shows "stuck (iteration st)"
proof -
  let ?n = "num_points st"
  have g: "graph_inv st" and pV: "ptrs_ok st V" and pH: "ptrs_ok st H" and e: "0 < num_edges st"
    and z: "\<And>j. j < length (lines st) \<Longrightarrow> links_to_break st (line_at st j) \<le> 0"
    using s by (simp_all add: stuck_def)
  have ids: "ids_ok st" using g by (simp add: graph_inv_def)
  define idx where "idx = fst (select_line st)"
  have "\<exists>st1 f. graph_inv st1 \<and> same_points st st1 \<and> num_edges st1 = num_edges st \<and>
      (\<forall>a < ?n. \<forall>b < ?n. linked st1 a b \<longrightarrow> linked st a b) \<and>
      iteration st = st1\<lparr>final_lines := f, lines := (lines st)[idx := None]\<rparr>"
  proof (cases "line_at st idx")
    case None
    then have "iteration st = st\<lparr>final_lines := final_lines st, lines := (lines st)[idx := None]\<rparr>"
      by (simp add: iteration_def idx_def finalize_lines_def)
    then have "graph_inv st \<and> same_points st st \<and> num_edges st = num_edges st \<and>
      (\<forall>a < ?n. \<forall>b < ?n. linked st a b \<longrightarrow> linked st a b) \<and>
      iteration st = st\<lparr>final_lines := final_lines st, lines := (lines st)[idx := None]\<rparr>"
      using g same_points_refl [of st] by simp
    then show ?thesis by (intro exI)
  next
    case (Some lin)
    then have j: "idx < length (lines st)" by (simp add: line_at_def split: if_splits)
    have p: "ptrs_ok st (axis lin)" by (rule ptrs_ok_axis [OF pV pH])
    let ?C = "set (low_side st lin) \<times> set (high_side st lin)"
    obtain st1 where r: "removes st st1 ?C"
      and f: "finalize_lines (Some lin) st = st1\<lparr>final_lines := final_lines st @ [lin]\<rparr>"
      using ptrs_ok_finalize [OF g p] by blast
    have clear: "\<forall>p \<in> set (low_side st lin). \<forall>q \<in> set (high_side st lin). \<not> linked st p q"
      using z [OF j] Some score_zero_no_cut(2) [OF ids p] by simp
    have g1: "graph_inv st1" and sp: "same_points st st1" and l1: "lines st1 = lines st"
      and lk: "\<And>a b. a < ?n \<Longrightarrow> b < ?n \<Longrightarrow>
        linked st1 a b \<longleftrightarrow> linked st a b \<and> (a, b) \<notin> ?C \<and> (b, a) \<notin> ?C"
      using r by (simp_all add: removes_def)
    have n1: "num_points st1 = ?n" using sp by (simp add: same_points_def)
    have same: "linked st1 a b \<longleftrightarrow> linked st a b" if "a < ?n" "b < ?n" for a b
      using lk [OF that] clear graph_inv_linked(1) [OF g that] by auto
    then have "{(i, j). i < ?n \<and> j < ?n \<and> linked st1 i j} = {(i, j). i < ?n \<and> j < ?n \<and> linked st i j}"
      by auto
    then have "active_count st1 = active_count st"
      by (simp add: active_count_card n1)
    then have ne: "num_edges st1 = num_edges st"
      using g g1 by (simp add: graph_inv_def)
    have "iteration st = st1\<lparr>final_lines := final_lines st @ [lin], lines := (lines st)[idx := None]\<rparr>"
      using Some f l1 by (simp add: iteration_def idx_def [symmetric] Let_def)
    then have "graph_inv st1 \<and> same_points st st1 \<and> num_edges st1 = num_edges st \<and>
      (\<forall>a < ?n. \<forall>b < ?n. linked st1 a b \<longrightarrow> linked st a b) \<and>
      iteration st = st1\<lparr>final_lines := final_lines st @ [lin], lines := (lines st)[idx := None]\<rparr>"
      using g1 sp ne same by simp
    then show ?thesis by (intro exI)
  qed
  then obtain st1 f where all: "graph_inv st1 \<and> same_points st st1 \<and> num_edges st1 = num_edges st \<and>
      (\<forall>a < ?n. \<forall>b < ?n. linked st1 a b \<longrightarrow> linked st a b) \<and>
      iteration st = st1\<lparr>final_lines := f, lines := (lines st)[idx := None]\<rparr>"
    by (elim exE)
  then have g1: "graph_inv st1" and sp: "same_points st st1"
    and ne: "num_edges st1 = num_edges st"
    and sub: "\<forall>a < ?n. \<forall>b < ?n. linked st1 a b \<longrightarrow> linked st a b"
    and it: "iteration st = st1\<lparr>final_lines := f, lines := (lines st)[idx := None]\<rparr>"
    by simp_all
  define st2 where "st2 = st1\<lparr>final_lines := f, lines := (lines st)[idx := None]\<rparr>"
  have sp2: "same_points st st2" using sp by (simp add: st2_def)
  have g2: "graph_inv st2" using g1 by (simp add: st2_def)
  have ids2: "ids_ok st2" using g2 by (simp add: graph_inv_def)
  have lk2: "linked st2 = linked st1" by (simp add: st2_def)
  have ne2: "num_edges st2 = num_edges st" using ne by (simp add: st2_def)
  have lines2: "lines st2 = (lines st)[idx := None]" by (simp add: st2_def)
  have p2: "ptrs_ok st2 a" for a
    using ptrs_ok_axis [OF pV pH, of a] by (simp add: same_points_ptrs [OF sp2])
  have "links_to_break st2 (line_at st2 j) \<le> 0" if j: "j < length (lines st)" for j
  proof (cases "line_at st2 j")
    case None
    then show ?thesis by (simp add: links_to_break_def)
  next
    case (Some lin)
    then have old: "line_at st j = Some lin"
      using j by (auto simp add: line_at_def lines2 nth_list_update_any split: if_splits)
    have p: "ptrs_ok st (axis lin)" by (rule ptrs_ok_axis [OF pV pH])
    have "\<forall>p \<in> set (low_side st lin). \<forall>q \<in> set (high_side st lin). \<not> linked st p q"
      using z [OF j] old score_zero_no_cut(2) [OF ids p] by simp
    then have "\<forall>p \<in> set (low_side st2 lin). \<forall>q \<in> set (high_side st2 lin). \<not> linked st2 p q"
      unfolding sides_same [OF sp2] lk2
      using sub ptrs_ok_sides [OF p] by blast
    then show ?thesis
      using Some score_zero_no_cut(2) [OF ids2 p2] by simp
  qed
  then have "stuck st2"
    using g2 p2 e ne2 by (simp add: stuck_def lines2)
  then show ?thesis by (simp add: it st2_def)
qed

lemma returns_not_stuck:
  assumes "main_loop st = Some y"
  shows "\<not> stuck st"
proof (rule main_loop.raw_induct [where P = "\<lambda>s y. \<not> stuck s", OF _ assms])
  fix f s y'
  assume IH: "\<And>x y. f x = Some y \<Longrightarrow> \<not> stuck x"
    and body: "(if 0 < num_edges s then f (iteration s) else Some s) = Some y'"
  show "\<not> stuck s"
  proof
    assume s: "stuck s"
    then have "0 < num_edges s" by (simp add: stuck_def)
    then have "f (iteration s) = Some y'" using body by simp
    then have "\<not> stuck (iteration s)" by (rule IH)
    then show False using stuck_iteration [OF s] by simp
  qed
qed

lemma stuck_diverges:
  assumes "stuck st"
  shows "main_loop st = None"
proof (cases "main_loop st")
  case None
  then show ?thesis .
next
  case (Some y)
  then show ?thesis using returns_not_stuck assms by blast
qed

subsection \<open>Concrete runs\<close>

lemmas step_defs =
  load_points_def fresh_def link_points_def link_point_def link_row_def
  num_points_def pre_separate_def pre_loop.simps MAX_POINTS_def axis_coord_def pt_array_def
  to_float_def float_add_def round24_def ulp24.simps
  iteration_def select_line_def line_at_def links_to_break_def closest_point_def
  closest_scan.simps finalize_lines_def unlink_points_def linked_def upt_rec Let_def

lemma two_setup: "setup_instance [0, 1] two_loaded = Inr two_ready"
  by (simp add: setup_instance_def two_points_def two_loaded_def two_linked_def two_ready_def
      step_defs)

lemma two_iteration: "iteration two_ready = two_done"
  by (simp add: two_linked_def two_ready_def two_done_def step_defs)

lemma two_main_loop: "main_loop two_ready = Some two_done"
proof -
  have e: "0 < num_edges two_ready" "num_edges two_done = 0"
    by (simp_all add: two_ready_def two_linked_def two_done_def)
  have "main_loop two_ready = main_loop (iteration two_ready)"
    using e(1) by (subst main_loop.simps) simp
  also have "\<dots> = Some two_done"
    unfolding two_iteration using e(2) by (subst main_loop.simps) simp
  finally show ?thesis .
qed

lemma two_separate: "separate [0, 1] two_loaded = Some (Inr two_done)"
  unfolding separate_def two_setup by (simp add: two_main_loop)

lemma two_read: "read_file (Points_File 2 two_points) st = (FILE_SUCCESS, load_points two_points st)"
  by (simp add: read_file_def two_points_def MAX_POINTS_def)

lemma two_qsort: "qsort_stable (mypoints two_loaded) (y_points two_loaded) = [0, 1]"
  by (simp add: qsort_stable_def two_loaded_def two_points_def load_points_def upt_rec)

lemma two_main: "main_files qsort_stable [Points_File 2 two_points] fresh [] =
     Some (Program_Ends [ [\<lparr>axis = V, coord = 1\<rparr>] ])"
proof -
  have "main_files qsort_stable [Points_File 2 two_points] fresh [] =
      main_files qsort_stable [] (restore two_done) ([] @ [final_lines two_done])"
    by (simp only: main_files.simps two_read two_loaded_def [symmetric] prod.case
        File_Status.case two_qsort two_separate option.case sum.case)
  then show ?thesis by (simp add: two_done_def)
qed

lemma twin_ready_stuck: "stuck twin_ready"
proof -
  have g: "graph_inv twin_ready" "ptrs_ok twin_ready V" "ptrs_ok twin_ready H"
    "0 < num_edges twin_ready"
    by (simp_all add: twin_ready_def graph_inv_def ids_ok_def active_count_def active_entries_def
        linked_def num_points_def MAX_POINTS_def ptrs_ok_def pt_array_def upt_rec)
  have z: "links_to_break twin_ready (line_at twin_ready 0) = 0"
    "links_to_break twin_ready (line_at twin_ready 1) = 0"
    by (simp_all add: step_defs twin_ready_def)
  have "links_to_break twin_ready (line_at twin_ready j) \<le> 0" if "j < 2" for j
  proof -
    have "j = 0 \<or> j = 1" using that by auto
    then show ?thesis using z by auto
  qed
  moreover have "length (lines twin_ready) = 2" by (simp add: twin_ready_def)
  ultimately show ?thesis using g by (simp add: stuck_def)
qed

lemma flat_setup: "setup_instance [0, 1] (load_points flat_points fresh) = Inr flat_ready"
  by (simp add: setup_instance_def flat_points_def flat_ready_def step_defs)


subsection \<open>Instances in the exact range\<close>

text \<open>For an instance of at least one and at most \<open>MAX_POINTS\<close> distinct points given in
  ascending order of \<open>x\<close>, with coordinates in the exact range, whatever \<open>y\<close>-sorted
  order \<open>qsort\<close> leaves: the loop returns after at most \<open>2 * (n - 1)\<close> iterations, at the
  first state without a link.\<close>

lemma main_loop_halts_exact:
  assumes ex: "exact_coords ps"
    and inst: "1 \<le> length ps" "length ps \<le> MAX_POINTS" "distinct ps" "sorted (map fst ps)"
      "mset ys = mset [0..<length ps]" "sorted (map (\<lambda>p. snd (ps ! p)) ys)"
      "lines st = []" "num_edges st = 0"
  shows "\<exists>st0 k. setup_instance ys (load_points ps st) = Inr st0 \<and>
           k \<le> 2 * (length ps - 1) \<and>
           (\<forall>j < k. 0 < num_edges ((iteration ^^ j) st0)) \<and>
           num_edges ((iteration ^^ k) st0) = 0 \<and>
           main_loop st0 = Some ((iteration ^^ k) st0) \<and>
           (\<forall>p < length ps. \<forall>q < length ps. \<not> linked ((iteration ^^ k) st0) p q)"
proof -
  from setup_instance_inv [OF inst ex]
  obtain st0 where "setup_instance ys (load_points ps st) = Inr st0 \<and> loop_inv st0 \<and>
      num_points st0 = length ps \<and>
      lines st0 = map (\<lambda>k. Some (mid_line st0 V k)) [0..<length ps - 1] @
                  map (\<lambda>k. Some (mid_line st0 H k)) [0..<length ps - 1] \<and>
      final_lines st0 = final_lines st \<and>
      num_edges st0 = length ps * (length ps - 1) \<and>
      (\<forall>i < length ps. \<forall>j < length ps. linked st0 i j \<longleftrightarrow> i \<noteq> j) \<and>
      (\<forall>i < length ps. axis_coord st0 V i = fst (ps ! i) \<and>
           axis_coord st0 H i = snd (ps ! (ys ! i)))"
    by (rule exE)
  then have st0: "setup_instance ys (load_points ps st) = Inr st0" "loop_inv st0"
    "num_points st0 = length ps"
    "lines st0 = map (\<lambda>k. Some (mid_line st0 V k)) [0..<length ps - 1] @
                 map (\<lambda>k. Some (mid_line st0 H k)) [0..<length ps - 1]"
    by blast+
  have "live_count st0 = 2 * (length ps - 1)"
    unfolding live_count_def st0(4) by simp
  then have "live_count st0 \<le> 2 * (length ps - 1)" by simp
  from loop_halts [OF st0(2) this]
  obtain k where "k \<le> 2 * (length ps - 1) \<and>
      (\<forall>j < k. 0 < num_edges ((iteration ^^ j) st0)) \<and>
      num_edges ((iteration ^^ k) st0) = 0 \<and>
      main_loop st0 = Some ((iteration ^^ k) st0) \<and>
      loop_inv ((iteration ^^ k) st0) \<and>
      num_points ((iteration ^^ k) st0) = num_points st0"
    by (elim exE conjE) blast
  then have k: "k \<le> 2 * (length ps - 1)"
    "\<forall>j < k. 0 < num_edges ((iteration ^^ j) st0)"
    "num_edges ((iteration ^^ k) st0) = 0"
    "main_loop st0 = Some ((iteration ^^ k) st0)"
    "loop_inv ((iteration ^^ k) st0)"
    "num_points ((iteration ^^ k) st0) = num_points st0"
    by blast+
  have g: "graph_inv ((iteration ^^ k) st0)" using k(5) by (simp add: loop_inv_def)
  have "\<forall>p < length ps. \<forall>q < length ps. \<not> linked ((iteration ^^ k) st0) p q"
    using no_links_left [OF g k(3)] k(6) st0(3) by simp
  then show ?thesis using st0(1) k(1-4) by blast
qed


text \<open>In such a run every iteration the loop performs takes a line of score at least
  \<open>1\<close> and of greatest score, and \<open>num_edges\<close> is smaller after it.\<close>

lemma num_edges_decreases_exact:
  assumes ex: "exact_coords ps"
    and inst: "1 \<le> length ps" "length ps \<le> MAX_POINTS" "distinct ps" "sorted (map fst ps)"
      "mset ys = mset [0..<length ps]" "sorted (map (\<lambda>p. snd (ps ! p)) ys)"
      "lines st = []" "num_edges st = 0"
    and start: "setup_instance ys (load_points ps st) = Inr st0"
    and run: "\<forall>j \<le> k. 0 < num_edges ((iteration ^^ j) st0)"
  shows "\<exists>lin. line_at ((iteration ^^ k) st0) (fst (select_line ((iteration ^^ k) st0))) = Some lin \<and>
           1 \<le> links_to_break ((iteration ^^ k) st0) (Some lin) \<and>
           (\<forall>j < length (lines ((iteration ^^ k) st0)).
              links_to_break ((iteration ^^ k) st0) (line_at ((iteration ^^ k) st0) j)
                \<le> links_to_break ((iteration ^^ k) st0) (Some lin)) \<and>
           final_lines ((iteration ^^ Suc k) st0) = final_lines ((iteration ^^ k) st0) @ [lin] \<and>
           num_edges ((iteration ^^ Suc k) st0) < num_edges ((iteration ^^ k) st0)"
proof -
  let ?s = "(iteration ^^ k) st0"
  have "\<exists>s. setup_instance ys (load_points ps st) = Inr s \<and> loop_inv s"
    using setup_instance_inv [OF inst ex] by blast
  then have "loop_inv st0" using start by auto
  then have inv: "loop_inv ?s" using run by (intro reach_inv) simp_all
  have e: "0 < num_edges ?s" using run by simp
  from iteration_step [OF inv e]
  obtain lin where lin: "line_at ?s (fst (select_line ?s)) = Some lin"
    "0 < links_to_break ?s (Some lin)" "final_lines (iteration ?s) = final_lines ?s @ [lin]"
    and dec: "num_edges (iteration ?s) < num_edges ?s"
    by blast
  obtain idx best where sel: "select_line ?s = (idx, best)" by (cases "select_line ?s")
  have "\<forall>j < length (lines ?s). links_to_break ?s (line_at ?s j) \<le> links_to_break ?s (Some lin)"
    using select_line_props(2,3) [OF sel] lin(1) sel by (simp add: max_def)
  then show ?thesis using lin dec by (intro exI [of _ lin]) simp
qed


subsection \<open>Coordinates beyond the exact range\<close>

lemma big_setup: "setup_instance [0, 1] (load_points big_points fresh) = Inr big_ready"
  by (simp add: setup_instance_def big_points_def big_ready_def step_defs)

lemma big_setup_swapped:
  "setup_instance [1, 0] (load_points big_points fresh) = Inr (big_ready\<lparr>y_points := [1, 0]\<rparr>)"
  by (simp add: setup_instance_def big_points_def big_ready_def step_defs)

lemma big_ready_stuck: "stuck big_ready"
proof -
  have g: "graph_inv big_ready" "ptrs_ok big_ready V" "ptrs_ok big_ready H"
    "0 < num_edges big_ready"
    by (simp_all add: big_ready_def graph_inv_def ids_ok_def active_count_def active_entries_def
        linked_def num_points_def MAX_POINTS_def ptrs_ok_def pt_array_def upt_rec)
  have z: "links_to_break big_ready (line_at big_ready 0) = 0"
    "links_to_break big_ready (line_at big_ready 1) = 0"
    by (simp_all add: step_defs big_ready_def)
  have "links_to_break big_ready (line_at big_ready j) \<le> 0" if "j < 2" for j
  proof -
    have "j = 0 \<or> j = 1" using that by auto
    then show ?thesis using z by auto
  qed
  moreover have "length (lines big_ready) = 2" by (simp add: big_ready_def)
  ultimately show ?thesis using g by (simp add: stuck_def)
qed

lemma big_swapped_stuck: "stuck (big_ready\<lparr>y_points := [1, 0]\<rparr>)"
proof -
  let ?s = "big_ready\<lparr>y_points := [1, 0]\<rparr>"
  have g: "graph_inv ?s" "ptrs_ok ?s V" "ptrs_ok ?s H" "0 < num_edges ?s"
    by (simp_all add: big_ready_def graph_inv_def ids_ok_def active_count_def active_entries_def
        linked_def num_points_def MAX_POINTS_def ptrs_ok_def pt_array_def upt_rec)
  have z: "links_to_break ?s (line_at ?s 0) = 0" "links_to_break ?s (line_at ?s 1) = 0"
    by (simp_all add: step_defs big_ready_def)
  have "links_to_break ?s (line_at ?s j) \<le> 0" if "j < 2" for j
  proof -
    have "j = 0 \<or> j = 1" using that by auto
    then show ?thesis using z by auto
  qed
  moreover have "length (lines ?s) = 2" by (simp add: big_ready_def)
  ultimately show ?thesis using g by (simp add: stuck_def)
qed

lemma big_read:
  "read_file (Points_File 2 big_points) st = (FILE_SUCCESS, load_points big_points st)"
  by (simp add: read_file_def big_points_def MAX_POINTS_def)

lemma big_qsort:
  "qsort_stable (mypoints (load_points big_points fresh))
     (y_points (load_points big_points fresh)) = [0, 1]"
  by (simp add: qsort_stable_def big_points_def load_points_def fresh_def upt_rec)

subsection \<open>The exit of link_points in a run of main\<close>

text \<open>The loop returns only with the counter at \<open>0\<close>, \<open>restore\<close> sets it to \<open>0\<close>, and
  \<open>read_file\<close> does not write it: \<open>link_points\<close> is always entered with the counter at
  \<open>0\<close>, counts \<open>n * (n - 1)\<close> links, and its test never fails.\<close>

lemma main_loop_zero:
  assumes "main_loop st = Some y"
  shows "num_edges y = 0"
proof (rule main_loop.raw_induct [where P = "\<lambda>s y. num_edges y = 0", OF _ assms])
  fix f s y'
  assume IH: "\<And>x y. f x = Some y \<Longrightarrow> num_edges y = 0"
    and body: "(if 0 < num_edges s then f (iteration s) else Some s) = Some y'"
  show "num_edges y' = 0"
  proof (cases "0 < num_edges s")
    case True
    then have "f (iteration s) = Some y'" using body by simp
    then show ?thesis by (rule IH)
  next
    case False
    then show ?thesis using body by simp
  qed
qed






text \<open>What the branch would do, were \<open>link_points\<close> entered with another counter: the
  \<open>exit(0)\<close> ends the program, later instance files included.\<close>

lemma main_files_exit:
  assumes t: "num_edges st < 2 ^ 32" and e: "num_edges st \<noteq> 0"
    and d: "length (take MAX_POINTS ps) = d"
  shows "main_files qsort_y (Points_File d ps # fs) st out =
     Some (Stopped Exit_Incorrect_Points out)"
proof -
  let ?st1 = "load_points (take MAX_POINTS ps) st"
  let ?ys = "qsort_y (mypoints ?st1) (y_points ?st1)"
  have r: "read_file (Points_File d ps) st = (FILE_SUCCESS, ?st1)"
    using d by (simp add: read_file_def Let_def)
  have n: "num_points (?st1\<lparr>y_points := ?ys\<rparr>) \<le> MAX_POINTS"
    by (simp add: num_points_def load_points_def)
  have ne: "num_edges (?st1\<lparr>y_points := ?ys\<rparr>) = num_edges st" by simp
  have "link_points (?st1\<lparr>y_points := ?ys\<rparr>) = Inl Exit_Incorrect_Points"
    using link_points_result [OF n] t e unfolding ne by simp
  then have "separate ?ys ?st1 = Some (Inl Exit_Incorrect_Points)"
    by (simp add: separate_def setup_instance_def)
  then show ?thesis using r by simp
qed


section \<open>The claims\<close>

lemmas eval_defs =
  two_points_def two_loaded_def two_linked_def two_ready_def load_points_def fresh_def
  graph_inv_def ids_ok_def active_count_def active_entries_def linked_def num_points_def
  MAX_POINTS_def unlink_points_def Let_def upt_rec

lemmas run_defs =
  two_points_def two_loaded_def two_linked_def two_ready_def two_done_def
  flat_points_def flat_ready_def twin_points_def twin_ready_def load_points_def fresh_def separate_def setup_instance_def
  link_points_def link_point_def link_row_def
  num_points_def pre_separate_def pre_loop.simps MAX_POINTS_def axis_coord_def pt_array_def to_float_def
  float_add_def round24_def ulp24.simps
  main_loop.simps iteration_def select_line_def line_at_def links_to_break_def closest_point_def
  closest_scan.simps finalize_lines_def unlink_points_def linked_def upt_rec Let_def

text \<open>
  C1 (the code at an input where the claim fails). The points \<open>(16777216, 0)\<close> and
  \<open>(16777217, 0)\<close> are distinct and in ascending order of \<open>x\<close>. As \<open>float\<close>s both
  \<open>x\<close>-coordinates are \<open>16777216\<close>, and so is the vertical line between them: after
  \<open>pre_separate\<close> one link remains and no line cuts it. The \<open>while\<close> loop does not return,
  whichever of the two orders \<open>qsort\<close> leaves in \<open>y_points\<close>, and neither does the run of
  \<open>main\<close> on the instance file of these two points.
\<close>

theorem big_points_never_halt:
  "distinct big_points \<and> sorted (map fst big_points) \<and>
   setup_instance [0, 1] (load_points big_points fresh) = Inr big_ready \<and>
   0 < num_edges big_ready \<and>
   main_loop big_ready = None \<and>
   separate [0, 1] (load_points big_points fresh) = None \<and>
   separate [1, 0] (load_points big_points fresh) = None \<and>
   main_files qsort_stable [Points_File 2 big_points] fresh [] = None"
proof -
  have d: "distinct big_points" "sorted (map fst big_points)"
    by (simp_all add: big_points_def)
  have e: "0 < num_edges big_ready" by (simp add: big_ready_def)
  have m: "main_loop big_ready = None" by (rule stuck_diverges [OF big_ready_stuck])
  have m': "main_loop (big_ready\<lparr>y_points := [1, 0]\<rparr>) = None"
    by (rule stuck_diverges [OF big_swapped_stuck])
  have s1: "separate [0, 1] (load_points big_points fresh) = None"
    unfolding separate_def big_setup using m by simp
  have s2: "separate [1, 0] (load_points big_points fresh) = None"
    unfolding separate_def big_setup_swapped using m' by simp
  have r: "main_files qsort_stable [Points_File 2 big_points] fresh [] = None"
    by (simp only: main_files.simps big_read prod.case File_Status.case big_qsort s1
        option.case)
  show ?thesis using d big_setup e m s1 s2 r by simp
qed




text \<open>
  C7. For two distinct points \<open>i\<close> and \<open>j\<close> of a state whose graph is symmetric and counted
  by \<open>num_edges\<close>: when the link between them is active, \<open>unlink_points\<close> clears it in
  both directions and takes exactly two from \<open>num_edges\<close> and from the number of active
  entries; when it is not active, \<open>unlink_points\<close> leaves the state as it is; and a
  second call after a first changes nothing.
\<close>

theorem unlink_points_idempotent:
  assumes "graph_inv st" "i < num_points st" "j < num_points st" "i \<noteq> j"
  shows "(linked st i j \<longrightarrow>
            \<not> linked (unlink_points i j st) i j \<and> \<not> linked (unlink_points i j st) j i \<and>
            num_edges (unlink_points i j st) + 2 = num_edges st \<and>
            active_count (unlink_points i j st) + 2 = active_count st) \<and>
         (\<not> linked st i j \<longrightarrow> unlink_points i j st = st) \<and>
         unlink_points i j (unlink_points i j st) = unlink_points i j st"
proof -
  have ids: "ids_ok st" using assms(1) by (simp add: graph_inv_def)
  have idj: "pt_id (mypoints st ! j) = j"
    using graph_inv_ids(1) [OF assms(1) assms(3)] .
  have off: "\<not> linked (unlink_points i j st) i j \<and> \<not> linked (unlink_points i j st) j i"
    if "linked st i j"
    using that by (simp add: unlink_points_linked [OF ids assms(2) assms(3)] assms(2) assms(3))
  have cnt: "active_count (unlink_points i j st) + 2 = active_count st" if "linked st i j"
    using that unlink_active_count [OF assms(1) assms(2) assms(3)] by simp
  have g': "graph_inv (unlink_points i j st)"
    by (rule unlink_points_graph_inv [OF assms(1) assms(2) assms(3)])
  have ne: "num_edges (unlink_points i j st) + 2 = num_edges st" if "linked st i j"
    using cnt [OF that] g' assms(1) by (simp add: graph_inv_def)
  have noop: "unlink_points i j st = st" if "\<not> linked st i j"
    using that idj by (simp add: unlink_points_noop)
  have "\<not> linked (unlink_points i j st) i (pt_id (mypoints (unlink_points i j st) ! j))"
  proof (cases "linked st i j")
    case True
    then show ?thesis using off idj by (simp add: unlink_points_point)
  next
    case False
    then show ?thesis using noop idj by simp
  qed
  then have twice: "unlink_points i j (unlink_points i j st) = unlink_points i j st"
    by (rule unlink_points_noop)
  show ?thesis using off cnt ne noop twice by blast
qed

theorem unlink_points_idempotent_witness:
  "graph_inv two_linked \<and> 0 < num_points two_linked \<and> 1 < num_points two_linked \<and>
   linked two_linked 0 1 \<and>
   \<not> linked (unlink_points 0 1 two_linked) 0 1 \<and> \<not> linked (unlink_points 0 1 two_linked) 1 0 \<and>
   num_edges (unlink_points 0 1 two_linked) + 2 = num_edges two_linked \<and>
   unlink_points 0 1 (unlink_points 0 1 two_linked) = unlink_points 0 1 two_linked"
proof -
  have h: "graph_inv two_linked" "0 < num_points two_linked" "1 < num_points two_linked"
    "(0::nat) \<noteq> 1"
    by (simp_all add: eval_defs)
  have l: "linked two_linked 0 1" by (simp add: eval_defs)
  show ?thesis
    using h l unlink_points_idempotent [OF h] by simp
qed


text \<open>
  C8 (the code at an input where the claim fails). For the distinct points
  \<open>(16777216, 0)\<close> and \<open>(16777217, 0)\<close> the first iteration of the loop finds the score
  \<open>0\<close> for both lines while a link remains, keeps slot \<open>0\<close>, and commits its line, the
  vertical line at \<open>16777216\<close>: a line of score \<open>0\<close> is appended to \<open>final_lines\<close> and
  \<open>num_edges\<close> is the same after the iteration.
\<close>

theorem big_points_zero_score_commit:
  "distinct big_points \<and> sorted (map fst big_points) \<and>
   setup_instance [0, 1] (load_points big_points fresh) = Inr big_ready \<and>
   0 < num_edges big_ready \<and>
   select_line big_ready = (0, 0) \<and>
   line_at big_ready 0 = Some \<lparr>axis = V, coord = 16777216\<rparr> \<and>
   links_to_break big_ready (line_at big_ready 0) = 0 \<and>
   links_to_break big_ready (line_at big_ready 1) = 0 \<and>
   final_lines (iteration big_ready) = [\<lparr>axis = V, coord = 16777216\<rparr>] \<and>
   num_edges (iteration big_ready) = num_edges big_ready"
proof -
  have d: "distinct big_points" "sorted (map fst big_points)"
    by (simp_all add: big_points_def)
  have e: "0 < num_edges big_ready"
    "select_line big_ready = (0, 0)"
    "line_at big_ready 0 = Some \<lparr>axis = V, coord = 16777216\<rparr>"
    "links_to_break big_ready (line_at big_ready 0) = 0"
    "links_to_break big_ready (line_at big_ready 1) = 0"
    "final_lines (iteration big_ready) = [\<lparr>axis = V, coord = 16777216\<rparr>]"
    "num_edges (iteration big_ready) = num_edges big_ready"
    by (simp_all add: big_ready_def step_defs)
  show ?thesis using d big_setup e by simp
qed

text \<open>
  C10. A state that \<open>link_points\<close> returns has a symmetric connectivity graph without
  loops whose active directed entries \<open>num_edges\<close> counts; \<open>unlink_points\<close> on two points
  of the instance keeps that, and so does \<open>finalize_lines\<close> on \<open>NULL\<close> or on a line whose
  point array holds valid pointers. In every such state the entry from \<open>i\<close> to \<open>j\<close> is
  active exactly when the entry from \<open>j\<close> to \<open>i\<close> is, \<open>num_edges\<close> is the number of active
  entries, and it is even.
\<close>

theorem graph_invariant:
  "(num_points st \<le> MAX_POINTS \<and> num_edges st < 2 ^ 32 \<and> link_points st = Inr st'
      \<longrightarrow> graph_inv st') \<and>
   (graph_inv st \<and> i < num_points st \<and> j < num_points st
      \<longrightarrow> graph_inv (unlink_points i j st)) \<and>
   (graph_inv st \<and> (\<forall>lin. lno = Some lin \<longrightarrow>
        length (pt_array st (axis lin)) = num_points st \<and>
        (\<forall>p \<in> set (pt_array st (axis lin)). p < num_points st))
      \<longrightarrow> graph_inv (finalize_lines lno st)) \<and>
   (graph_inv st \<longrightarrow>
      (\<forall>i \<in> set [0..<num_points st]. \<forall>j \<in> set [0..<num_points st].
         linked st i j \<longleftrightarrow> linked st j i) \<and>
      num_edges st = active_count st \<and> even (num_edges st))"
proof (intro conjI impI)
  assume a: "num_points st \<le> MAX_POINTS \<and> num_edges st < 2 ^ 32 \<and> link_points st = Inr st'"
  then have "num_edges st = 0 \<and> st' = fold link_point [0..<num_points st] st"
    using link_points_result [of st] by (auto split: if_splits)
  then show "graph_inv st'" using link_fold_graph(1) [of st] a by simp
next
  assume "graph_inv st \<and> i < num_points st \<and> j < num_points st"
  then show "graph_inv (unlink_points i j st)" by (simp add: unlink_points_graph_inv)
next
  assume a: "graph_inv st \<and> (\<forall>lin. lno = Some lin \<longrightarrow>
        length (pt_array st (axis lin)) = num_points st \<and>
        (\<forall>p \<in> set (pt_array st (axis lin)). p < num_points st))"
  show "graph_inv (finalize_lines lno st)"
  proof (cases lno)
    case None
    then show ?thesis using a by (simp add: finalize_lines_def)
  next
    case (Some lin)
    then obtain st1 where "removes st st1 (set (low_side st lin) \<times> set (high_side st lin))"
      "finalize_lines (Some lin) st = st1\<lparr>final_lines := final_lines st @ [lin]\<rparr>"
      using finalize_lines_removes [of st lin] a by blast
    then show ?thesis using Some by (simp add: removes_def)
  qed
next
  assume g: "graph_inv st"
  show "\<forall>i \<in> set [0..<num_points st]. \<forall>j \<in> set [0..<num_points st].
      linked st i j \<longleftrightarrow> linked st j i"
    using g by (simp add: graph_inv_def)
  show "num_edges st = active_count st" using g by (simp add: graph_inv_def)
  then show "even (num_edges st)" using symmetric_count_even [OF g] by simp
qed

theorem graph_invariant_witness:
  "num_points two_loaded \<le> MAX_POINTS \<and> num_edges two_loaded < 2 ^ 32 \<and>
   link_points two_loaded = Inr two_linked \<and> graph_inv two_linked \<and>
   0 < num_points two_linked \<and> 1 < num_points two_linked \<and>
   graph_inv (unlink_points 0 1 two_linked) \<and>
   num_points two_linked = 2 \<and> pt_array two_linked V = [0, 1] \<and>
   graph_inv (finalize_lines (Some \<lparr>axis = V, coord = 1\<rparr>) two_linked) \<and>
   linked two_linked 0 1 \<and> linked two_linked 1 0 \<and>
   num_edges two_linked = active_count two_linked \<and> even (num_edges two_linked)"
proof -
  have h1: "num_points two_loaded \<le> MAX_POINTS \<and> num_edges two_loaded < 2 ^ 32 \<and>
      link_points two_loaded = Inr two_linked"
    by (simp add: run_defs)
  have g: "graph_inv two_linked"
    using graph_invariant [of two_loaded two_linked] h1 by blast
  have n: "0 < num_points two_linked" "1 < num_points two_linked"
    by (simp_all add: run_defs)
  have q: "num_points two_linked = 2" "pt_array two_linked V = [0, 1]"
    by (simp_all add: run_defs)
  have p: "length (pt_array two_linked V) = num_points two_linked"
    "\<forall>p \<in> set (pt_array two_linked V). p < num_points two_linked"
    by (simp_all add: q)
  have l: "linked two_linked 0 1" "linked two_linked 1 0" by (simp_all add: run_defs)
  have u: "graph_inv (unlink_points 0 1 two_linked)"
    using graph_invariant [of two_linked two_linked 0 1] g n by blast
  have f: "graph_inv (finalize_lines (Some \<lparr>axis = V, coord = 1\<rparr>) two_linked)"
    using graph_invariant [of two_linked two_linked 0 1 "Some \<lparr>axis = V, coord = 1\<rparr>"] g p by simp
  have c: "num_edges two_linked = active_count two_linked \<and> even (num_edges two_linked)"
    using graph_invariant [of two_linked two_linked 0 1] g by blast
  show ?thesis using h1 g n q l u f c by blast
qed


text \<open>
  C3 (the code at an input where the claim fails). For the points \<open>(0, 0)\<close> and \<open>(2, 0)\<close>
  \<open>pre_separate\<close> stores the horizontal line at \<open>0\<close> in slot \<open>1\<close>. Both points have the
  coordinate \<open>0\<close> on that axis, which is not above the line's, and \<open>closest_point\<close>
  returns \<open>- 1\<close>, not the largest index \<open>1\<close>. The same happens for a vertical line at \<open>5\<close>
  to the right of the points \<open>(0, 0)\<close> and \<open>(2, 2)\<close>.
\<close>

theorem closest_point_all_low:
  "setup_instance [0, 1] (load_points flat_points fresh) = Inr flat_ready \<and>
   line_at flat_ready 1 = Some \<lparr>axis = H, coord = 0\<rparr> \<and>
   axis_coord flat_ready H 0 = 0 \<and> axis_coord flat_ready H 1 = 0 \<and>
   closest_point flat_ready \<lparr>axis = H, coord = 0\<rparr> = - 1 \<and>
   axis_coord two_ready V 0 = 0 \<and> axis_coord two_ready V 1 = 2 \<and>
   closest_point two_ready \<lparr>axis = V, coord = 5\<rparr> = - 1"
  using flat_setup
  by (simp add: flat_ready_def two_ready_def two_linked_def line_at_def axis_coord_def
      to_float_def round24_def ulp24.simps closest_point_def closest_scan.simps num_points_def)


text \<open>
  C4 (the code at an input where the claim fails). An instance file that declares \<open>0\<close>
  points is read with success and \<open>link_points\<close> accepts it. In \<open>pre_separate\<close> the bound
  \<open>num_points - 1\<close> is the unsigned value \<open>2 ^ 32 - 1\<close>, so the first loop runs and reads
  slots of \<open>x_points\<close> that hold no point of the instance: a fault, not an empty pool.
\<close>

theorem pre_separate_no_points_fault:
  "read_file (Points_File 0 []) fresh = (FILE_SUCCESS, load_points [] fresh) \<and>
   link_points (load_points [] fresh) = Inr (load_points [] fresh) \<and>
   pre_separate (load_points [] fresh) = Inl Memory_Fault \<and>
   separate [] (load_points [] fresh) = Some (Inl Memory_Fault)"
proof -
  have r: "read_file (Points_File 0 []) fresh = (FILE_SUCCESS, load_points [] fresh)"
    by (simp add: read_file_def)
  have l: "link_points (load_points [] fresh) = Inr (load_points [] fresh)"
    by (simp add: link_points_def load_points_def fresh_def num_points_def)
  have y: "(load_points [] fresh)\<lparr>y_points := []\<rparr> = load_points [] fresh"
    by (simp add: load_points_def fresh_def)
  have p: "pre_separate (load_points [] fresh) = Inl Memory_Fault"
    by (rule pre_separate_no_points) simp_all
  have "separate [] (load_points [] fresh) = Some (Inl Memory_Fault)"
    unfolding separate_def setup_instance_def y l by (simp add: p)
  then show ?thesis using r l p by simp
qed


text \<open>
  C5 (amended). The loop makes no check for an exhausted pool. In a state with a
  symmetric, counted graph and valid point arrays in which links remain and no slot of
  \<open>lines\<close> has a positive score, the \<open>while\<close> loop never returns.
\<close>

theorem main_loop_never_returns:
  assumes "graph_inv st" "ptrs_ok st V" "ptrs_ok st H" "0 < num_edges st"
    and "\<forall>j < length (lines st). links_to_break st (line_at st j) \<le> 0"
  shows "main_loop st = None"
proof -
  have "stuck st" using assms by (simp add: stuck_def)
  then show ?thesis by (rule stuck_diverges)
qed

theorem main_loop_never_returns_witness:
  "graph_inv twin_ready \<and> ptrs_ok twin_ready V \<and> ptrs_ok twin_ready H \<and>
   0 < num_edges twin_ready \<and> length (lines twin_ready) = 2 \<and>
   links_to_break twin_ready (line_at twin_ready 0) \<le> 0 \<and>
   links_to_break twin_ready (line_at twin_ready 1) \<le> 0 \<and>
   main_loop twin_ready = None"
proof -
  have h: "graph_inv twin_ready" "ptrs_ok twin_ready V" "ptrs_ok twin_ready H"
    "0 < num_edges twin_ready"
    "\<forall>j < length (lines twin_ready). links_to_break twin_ready (line_at twin_ready j) \<le> 0"
    using twin_ready_stuck by (simp_all add: stuck_def)
  have l: "length (lines twin_ready) = 2" by (simp add: twin_ready_def)
  have z: "links_to_break twin_ready (line_at twin_ready 0) \<le> 0"
    "links_to_break twin_ready (line_at twin_ready 1) \<le> 0"
    using h(5) l by simp_all
  show ?thesis
    by (intro conjI h(1-4) l z main_loop_never_returns [OF h])
qed

text \<open>
  C5 (counterexample). The point \<open>(0, 0)\<close> given twice: after \<open>pre_separate\<close> one link
  remains and both lines score \<open>0\<close>; the run returns neither an error nor a solution,
  it does not return.
\<close>

theorem twin_points_no_error:
  "setup_instance [0, 1] (load_points twin_points fresh) = Inr twin_ready \<and>
   0 < num_edges twin_ready \<and>
   links_to_break twin_ready (line_at twin_ready 0) = 0 \<and>
   links_to_break twin_ready (line_at twin_ready 1) = 0 \<and>
   separate [0, 1] (load_points twin_points fresh) = None"
proof -
  have s: "setup_instance [0, 1] (load_points twin_points fresh) = Inr twin_ready"
    by (simp add: twin_points_def twin_ready_def load_points_def fresh_def setup_instance_def
        link_points_def link_point_def link_row_def num_points_def pre_separate_def
        pre_loop.simps MAX_POINTS_def axis_coord_def pt_array_def to_float_def float_add_def
        round24_def ulp24.simps upt_rec Let_def)
  have z: "0 < num_edges twin_ready"
    "links_to_break twin_ready (line_at twin_ready 0) = 0"
    "links_to_break twin_ready (line_at twin_ready 1) = 0"
    by (simp_all add: step_defs twin_ready_def)
  have "main_loop twin_ready = None" by (rule stuck_diverges [OF twin_ready_stuck])
  then have "separate [0, 1] (load_points twin_points fresh) = None"
    unfolding separate_def s by simp
  then show ?thesis using s z by simp
qed





text \<open>
  C9. The points \<open>(0, 0)\<close> and \<open>(2, 2)\<close>: the pool is the vertical line at \<open>1\<close> followed
  by the horizontal line at \<open>1\<close>, both of score \<open>1\<close> against the one link; the scan keeps
  slot \<open>0\<close>, the vertical line; after that iteration \<open>num_edges\<close> is \<open>0\<close>, the loop
  returns, and \<open>final_lines\<close> holds the vertical line at \<open>1\<close> alone.
\<close>

theorem two_points_run:
  "setup_instance [0, 1] two_loaded = Inr two_ready \<and>
   lines two_ready = [Some \<lparr>axis = V, coord = 1\<rparr>, Some \<lparr>axis = H, coord = 1\<rparr>] \<and>
   num_edges two_ready = 2 \<and>
   links_to_break two_ready (Some \<lparr>axis = V, coord = 1\<rparr>) = 1 \<and>
   links_to_break two_ready (Some \<lparr>axis = H, coord = 1\<rparr>) = 1 \<and>
   select_line two_ready = (0, 1) \<and>
   iteration two_ready = two_done \<and> num_edges two_done = 0 \<and>
   main_loop two_ready = Some two_done \<and>
   separate [0, 1] two_loaded = Some (Inr two_done) \<and>
   final_lines two_done = [\<lparr>axis = V, coord = 1\<rparr>]"
proof -
  have "lines two_ready = [Some \<lparr>axis = V, coord = 1\<rparr>, Some \<lparr>axis = H, coord = 1\<rparr>]"
    "num_edges two_ready = 2"
    "links_to_break two_ready (Some \<lparr>axis = V, coord = 1\<rparr>) = 1"
    "links_to_break two_ready (Some \<lparr>axis = H, coord = 1\<rparr>) = 1"
    "select_line two_ready = (0, 1)"
    "num_edges two_done = 0" "final_lines two_done = [\<lparr>axis = V, coord = 1\<rparr>]"
    by (simp_all add: two_ready_def two_linked_def two_done_def step_defs)
  then show ?thesis
    using two_setup two_iteration two_main_loop two_separate by simp
qed


end
